theory Spec2Isabelle
  imports Complex_Main
begin

section \<open>JavaScript values\<close>

text \<open>
  The values a Store holds as keys and as values. Numbers are the integers and \<open>NaN\<close>
  (the one number that is not strictly equal to itself); arrays are given by their
  elements; a Store object is given by its address in the program state, and any other
  object by an address of its own.
\<close>

datatype jsval =
    Undefined
  | Null
  | Bool bool
  | Num int
  | NaN
  | Str string
  | Arr "jsval list"
  | StoreRef nat
  | Object nat

text \<open>The errors a call can end with: the two the source throws, and whatever a callback throws.\<close>

datatype error =
    TypeError string
  | RangeError string
  | Thrown jsval

text \<open>\<open>if (x)\<close>: every value is truthy but the falsy ones.\<close>

fun truthy :: "jsval \<Rightarrow> bool" where
  "truthy Undefined = False"
| "truthy Null = False"
| "truthy (Bool b) = b"
| "truthy (Num n) = (n \<noteq> 0)"
| "truthy NaN = False"
| "truthy (Str s) = (s \<noteq> [])"
| "truthy (Arr xs) = True"
| "truthy (StoreRef r) = True"
| "truthy (Object a) = True"

text \<open>\<open>Array.isArray\<close>.\<close>

fun isArray :: "jsval \<Rightarrow> bool" where
  "isArray (Arr xs) = True"
| "isArray v = False"

text \<open>
  \<open>===\<close>, which \<open>Array.prototype.indexOf\<close> and \<open>lastIndexOf\<close> compare with. The keys
  of a Map are compared with SameValueZero instead, which differs from \<open>===\<close> on \<open>NaN\<close>
  alone and is the equality of \<open>jsval\<close>.
\<close>

definition strict_equals :: "jsval \<Rightarrow> jsval \<Rightarrow> bool" where
  "strict_equals a b \<longleftrightarrow> a = b \<and> a \<noteq> NaN"

text \<open>\<open>xs[i]\<close> on an array: \<open>undefined\<close> outside \<open>0 .. length - 1\<close>.\<close>

definition js_nth :: "jsval list \<Rightarrow> int \<Rightarrow> jsval" where
  "js_nth xs i = (if 0 \<le> i \<and> i < int (length xs) then xs ! nat i else Undefined)"

section \<open>The native Map\<close>

text \<open>
  The data of a Map is the list of its entries in insertion order. \<open>set\<close> on a key that
  is there replaces the value where the entry stands; on a new key it appends.
\<close>

type_synonym entries = "(jsval \<times> jsval) list"

fun Map_set :: "entries \<Rightarrow> jsval \<Rightarrow> jsval \<Rightarrow> entries" where
  "Map_set [] k v = [(k, v)]"
| "Map_set ((k', v') # es) k v =
     (if k' = k then (k', v) # es else (k', v') # Map_set es k v)"

fun Map_get :: "entries \<Rightarrow> jsval \<Rightarrow> jsval" where
  "Map_get [] k = Undefined"
| "Map_get ((k', v') # es) k = (if k' = k then v' else Map_get es k)"

fun Map_delete :: "entries \<Rightarrow> jsval \<Rightarrow> entries" where
  "Map_delete [] k = []"
| "Map_delete ((k', v') # es) k = (if k' = k then es else (k', v') # Map_delete es k)"

text \<open>The invariant of a Map: no key twice.\<close>

definition distinct_keys :: "entries \<Rightarrow> bool" where
  "distinct_keys es \<longleftrightarrow> distinct (map fst es)"

section \<open>The program state\<close>

text \<open>
  Store objects are mutable and are passed by reference, so the state holds them by
  address: \<open>stores s ! r\<close> is the Map data of the Store at address \<open>r\<close>. \<open>env\<close> is the
  rest of the program's state, of any type, which callbacks may read and write.
\<close>

record 'e state =
  stores :: "entries list"
  env :: 'e

definition live :: "'e state \<Rightarrow> nat \<Rightarrow> bool" where
  "live s r \<longleftrightarrow> r < length (stores s)"

text \<open>The invariant of the state: every Store of it is a Map, with no key twice.\<close>

definition well_formed :: "'e state \<Rightarrow> bool" where
  "well_formed s \<longleftrightarrow> (\<forall>es \<in> set (stores s). distinct_keys es)"

definition size_store :: "'e state \<Rightarrow> nat \<Rightarrow> nat" where
  "size_store s r = length (stores s ! r)"

definition Store_set :: "nat \<Rightarrow> jsval \<Rightarrow> jsval \<Rightarrow> 'e state \<Rightarrow> 'e state" where
  "Store_set r k v s = s\<lparr>stores := (stores s)[r := Map_set (stores s ! r) k v]\<rparr>"

definition Store_delete :: "nat \<Rightarrow> jsval \<Rightarrow> 'e state \<Rightarrow> 'e state" where
  "Store_delete r k s = s\<lparr>stores := (stores s)[r := Map_delete (stores s ! r) k]\<rparr>"

text \<open>A caller's later \<open>set\<close> and \<open>delete\<close> calls on one Store, in order.\<close>

datatype mutation = Set jsval jsval | Delete jsval

fun mutate :: "nat \<Rightarrow> mutation list \<Rightarrow> 'e state \<Rightarrow> 'e state" where
  "mutate r [] s = s"
| "mutate r (Set k v # ms) s = mutate r ms (Store_set r k v s)"
| "mutate r (Delete k # ms) s = mutate r ms (Store_delete r k s)"

text \<open>
  \<open>new Store(iterable)\<close>: the constructor of Map makes an empty Map, at a fresh address,
  and calls \<open>set\<close> on it with each entry of the iterable in turn.
\<close>

fun set_all :: "nat \<Rightarrow> entries \<Rightarrow> 'e state \<Rightarrow> 'e state" where
  "set_all r [] s = s"
| "set_all r ((k, v) # es) s = set_all r es (Store_set r k v s)"

definition Store_new :: "entries \<Rightarrow> 'e state \<Rightarrow> nat \<times> 'e state" where
  "Store_new iterable s =
     (let r = length (stores s)
      in (r, set_all r iterable (s\<lparr>stores := stores s @ [[]]\<rparr>)))"

section \<open>The methods of Store\<close>

definition array :: "'e state \<Rightarrow> nat \<Rightarrow> jsval list" where
  "array s r = map snd (stores s ! r)"

definition keyArray :: "'e state \<Rightarrow> nat \<Rightarrow> jsval list" where
  "keyArray s r = map fst (stores s ! r)"

definition clone :: "nat \<Rightarrow> 'e state \<Rightarrow> nat \<times> 'e state" where
  "clone r s = Store_new (stores s ! r) s"

definition first :: "'e state \<Rightarrow> nat \<Rightarrow> jsval" where
  "first s r = js_nth (array s r) 0"

definition firstKey :: "'e state \<Rightarrow> nat \<Rightarrow> jsval" where
  "firstKey s r = js_nth (keyArray s r) 0"

definition last_store :: "'e state \<Rightarrow> nat \<Rightarrow> jsval" where
  "last_store s r = js_nth (array s r) (int (size_store s r) - 1)"

definition lastKey :: "'e state \<Rightarrow> nat \<Rightarrow> jsval" where
  "lastKey s r = js_nth (keyArray s r) (int (size_store s r) - 1)"

subsection \<open>Callbacks\<close>

text \<open>
  A function a caller passes: called as \<open>f H this args e\<close> with the Store objects \<open>H\<close>
  of the state (to read the Store it is handed), the value of \<open>this\<close>, its arguments and
  the environment, it returns a value or throws, makes \<open>set\<close> and \<open>delete\<close> calls on
  Stores of the state, each given with the address of its Store, and leaves a new
  environment. A callback that throws has still made its calls; \<open>clear\<close> is the
  \<open>delete\<close> of every key; a Store that a callback creates belongs to the environment.
  The methods bind \<open>this\<close> to \<open>thisArg\<close> when one is given and call the function plainly
  otherwise, so the callback's \<open>this\<close> is \<open>thisArg\<close> in both cases.
\<close>

type_synonym store_call = "nat \<times> mutation"

type_synonym 'e fn =
  "entries list \<Rightarrow> jsval \<Rightarrow> jsval list \<Rightarrow> 'e \<Rightarrow> (error + jsval) \<times> store_call list \<times> 'e"

text \<open>What a caller passes where a function is expected: a function, or any other value.\<close>

datatype 'e callback = NotFunction jsval | Function "'e fn"

fun write_all :: "store_call list \<Rightarrow> 'e state \<Rightarrow> 'e state" where
  "write_all [] s = s"
| "write_all ((a, m) # ws) s = write_all ws (mutate a [m] s)"

definition call :: "'e fn \<Rightarrow> jsval \<Rightarrow> jsval list \<Rightarrow> 'e state \<Rightarrow> (error + jsval) \<times> 'e state" where
  "call f this args s =
     (case f (stores s) this args (env s) of
        (res, ws, e') \<Rightarrow> (res, write_all ws (s\<lparr>env := e'\<rparr>)))"

subsection \<open>The iterator of a Map\<close>

text \<open>
  \<open>for (const [key, value] of this)\<close> reads the Map as it is when each entry is
  asked for, not as it was when the loop began. In ECMAScript a deleted entry leaves
  its place empty, so the iterator never loses its own place: what it still has to
  yield are the entries after that place, without the ones deleted since, with the
  values they have by then, and with every key set since that the Map did not have,
  at the end. \<open>iterator_after es remaining m\<close> is what remains to be yielded after
  the call \<open>m\<close> on the Map, whose entries before the call are \<open>es\<close>.
\<close>

fun set_value :: "entries \<Rightarrow> jsval \<Rightarrow> jsval \<Rightarrow> entries" where
  "set_value [] k v = []"
| "set_value ((k', v') # es) k v =
     (if k' = k then (k', v) # es else (k', v') # set_value es k v)"

fun iterator_after :: "entries \<Rightarrow> entries \<Rightarrow> mutation \<Rightarrow> entries" where
  "iterator_after es remaining (Delete k) = Map_delete remaining k"
| "iterator_after es remaining (Set k v) =
     (if k \<in> set (map fst es) then set_value remaining k v else remaining @ [(k, v)])"

text \<open>The same after the calls of a callback, for the iterator of the Store at \<open>r\<close>.\<close>

fun iterator_after_writes :: "nat \<Rightarrow> store_call list \<Rightarrow> entries \<Rightarrow> 'e state \<Rightarrow> entries" where
  "iterator_after_writes r [] remaining s = remaining"
| "iterator_after_writes r ((a, m) # ws) remaining s =
     iterator_after_writes r ws
       (if a = r then iterator_after (stores s ! r) remaining m else remaining)
       (mutate a [m] s)"

definition iterator_after_call ::
  "nat \<Rightarrow> entries \<Rightarrow> 'e fn \<Rightarrow> jsval \<Rightarrow> jsval list \<Rightarrow> 'e state \<Rightarrow> entries" where
  "iterator_after_call r remaining f this args s =
     (case f (stores s) this args (env s) of
        (res, ws, e') \<Rightarrow> iterator_after_writes r ws remaining s)"

subsection \<open>concat\<close>

text \<open>
  \<open>for (const [[key, value]] of stores)\<close> takes the first entry of each argument and
  destructures it; the first entry of an empty Store is \<open>undefined\<close>, which is not
  iterable.
\<close>

fun concat_loop :: "nat \<Rightarrow> nat list \<Rightarrow> 'e state \<Rightarrow> (error + unit) \<times> 'e state" where
  "concat_loop store [] s = (Inr (), s)"
| "concat_loop store (b # bs) s =
     (case stores s ! b of
        [] \<Rightarrow> (Inl (TypeError ''undefined is not iterable''), s)
      | (key, val) # _ \<Rightarrow> concat_loop store bs (Store_set store key val s))"

definition concat_store :: "nat \<Rightarrow> nat list \<Rightarrow> 'e state \<Rightarrow> (error + nat) \<times> 'e state" where
  "concat_store r args s =
     (case clone r s of (store, s1) \<Rightarrow>
        (case concat_loop store args s1 of
           (Inl err, s2) \<Rightarrow> (Inl err, s2)
         | (Inr _, s2) \<Rightarrow> (Inr store, s2)))"

subsection \<open>filter, map, split\<close>

text \<open>
  The three loops run over the iterator of the receiver: \<open>remaining\<close> is what it still
  has to yield. A callback that keeps setting new keys on the receiver keeps the loop
  going for ever; the result is \<open>None\<close> then.
\<close>

partial_function (option) filter_loop ::
  "'e fn \<Rightarrow> jsval \<Rightarrow> nat \<Rightarrow> nat \<Rightarrow> entries \<Rightarrow> nat \<Rightarrow> 'e state
     \<Rightarrow> ((error + unit) \<times> 'e state) option" where
  "filter_loop f thisArg r filtered remaining index s =
     (case remaining of
        [] \<Rightarrow> Some (Inr (), s)
      | (key, val) # rest \<Rightarrow>
          (case call f thisArg [val, key, Num (int index), StoreRef r] s of
             (Inl err, s') \<Rightarrow> Some (Inl err, s')
           | (Inr b, s') \<Rightarrow>
               filter_loop f thisArg r filtered
                 (iterator_after_call r rest f thisArg [val, key, Num (int index), StoreRef r] s)
                 (Suc index)
                 (if truthy b then Store_set filtered key val s' else s')))"

declare filter_loop.simps [code]

definition filter_store ::
  "nat \<Rightarrow> 'e callback \<Rightarrow> jsval \<Rightarrow> 'e state \<Rightarrow> ((error + nat) \<times> 'e state) option" where
  "filter_store r callback thisArg s =
     (case callback of
        NotFunction _ \<Rightarrow> Some (Inl (TypeError ''callback must be a function.''), s)
      | Function f \<Rightarrow>
          (case Store_new [] s of (filtered, s1) \<Rightarrow>
             (case filter_loop f thisArg r filtered (stores s1 ! r) 0 s1 of
                None \<Rightarrow> None
              | Some (Inl err, s2) \<Rightarrow> Some (Inl err, s2)
              | Some (Inr _, s2) \<Rightarrow> Some (Inr filtered, s2))))"

partial_function (option) map_loop ::
  "'e fn \<Rightarrow> jsval \<Rightarrow> nat \<Rightarrow> entries \<Rightarrow> nat \<Rightarrow> jsval list \<Rightarrow> 'e state
     \<Rightarrow> ((error + jsval list) \<times> 'e state) option" where
  "map_loop f thisArg r remaining index arr s =
     (case remaining of
        [] \<Rightarrow> Some (Inr arr, s)
      | (key, val) # rest \<Rightarrow>
          (case call f thisArg [val, key, Num (int index), StoreRef r] s of
             (Inl err, s') \<Rightarrow> Some (Inl err, s')
           | (Inr x, s') \<Rightarrow>
               map_loop f thisArg r
                 (iterator_after_call r rest f thisArg [val, key, Num (int index), StoreRef r] s)
                 (Suc index) (arr @ [x]) s'))"

declare map_loop.simps [code]

definition map_store ::
  "nat \<Rightarrow> 'e callback \<Rightarrow> jsval \<Rightarrow> 'e state \<Rightarrow> ((error + jsval list) \<times> 'e state) option" where
  "map_store r callback thisArg s =
     (case callback of
        NotFunction _ \<Rightarrow> Some (Inl (TypeError ''callback must be a function''), s)
      | Function f \<Rightarrow> map_loop f thisArg r (stores s ! r) 0 [] s)"

partial_function (option) split_loop ::
  "'e fn \<Rightarrow> jsval \<Rightarrow> nat \<Rightarrow> nat \<Rightarrow> nat \<Rightarrow> entries \<Rightarrow> nat \<Rightarrow> 'e state
     \<Rightarrow> ((error + unit) \<times> 'e state) option" where
  "split_loop f thisArg r fst_store snd_store remaining index s =
     (case remaining of
        [] \<Rightarrow> Some (Inr (), s)
      | (key, val) # rest \<Rightarrow>
          (case call f thisArg [val, key, Num (int index), StoreRef r] s of
             (Inl err, s') \<Rightarrow> Some (Inl err, s')
           | (Inr b, s') \<Rightarrow>
               split_loop f thisArg r fst_store snd_store
                 (iterator_after_call r rest f thisArg [val, key, Num (int index), StoreRef r] s)
                 (Suc index)
                 (if truthy b then Store_set fst_store key val s'
                  else Store_set snd_store key val s')))"

declare split_loop.simps [code]

definition split_store ::
  "nat \<Rightarrow> 'e callback \<Rightarrow> jsval \<Rightarrow> 'e state \<Rightarrow> ((error + nat \<times> nat) \<times> 'e state) option" where
  "split_store r callback thisArg s =
     (case callback of
        NotFunction _ \<Rightarrow> Some (Inl (TypeError ''callback must be a Function.''), s)
      | Function f \<Rightarrow>
          (case Store_new [] s of (fst_store, s1) \<Rightarrow>
             (case Store_new [] s1 of (snd_store, s2) \<Rightarrow>
                (case split_loop f thisArg r fst_store snd_store (stores s2 ! r) 0 s2 of
                   None \<Rightarrow> None
                 | Some (Inl err, s3) \<Rightarrow> Some (Inl err, s3)
                 | Some (Inr _, s3) \<Rightarrow> Some (Inr (fst_store, snd_store), s3)))))"

subsection \<open>indexOf, lastIndexOf\<close>

text \<open>
  \<open>Array.prototype.indexOf(x, n)\<close> and \<open>lastIndexOf(x, n)\<close> for an integer \<open>n\<close>: the
  search starts at \<open>n\<close> (counted from the end when negative), goes up or down, and
  compares with \<open>===\<close>.
\<close>

fun scan_up :: "jsval list \<Rightarrow> jsval \<Rightarrow> nat \<Rightarrow> int" where
  "scan_up [] x k = - 1"
| "scan_up (y # ys) x k = (if strict_equals y x then int k else scan_up ys x (Suc k))"

definition Array_indexOf :: "jsval list \<Rightarrow> jsval \<Rightarrow> int \<Rightarrow> int" where
  "Array_indexOf xs x n =
     (let len = int (length xs) in
      if len = 0 then - 1
      else if n \<ge> len then - 1
      else (let k = (if n \<ge> 0 then n else max (len + n) 0)
            in scan_up (drop (nat k) xs) x (nat k)))"

fun scan_down :: "jsval list \<Rightarrow> jsval \<Rightarrow> nat \<Rightarrow> int" where
  "scan_down xs x 0 = (if strict_equals (xs ! 0) x then 0 else - 1)"
| "scan_down xs x (Suc k) =
     (if strict_equals (xs ! Suc k) x then int (Suc k) else scan_down xs x k)"

definition Array_lastIndexOf :: "jsval list \<Rightarrow> jsval \<Rightarrow> int \<Rightarrow> int" where
  "Array_lastIndexOf xs x n =
     (let len = int (length xs) in
      if len = 0 then - 1
      else (let k = (if n \<ge> 0 then min n (len - 1) else len + n)
            in if k < 0 then - 1 else scan_down xs x (nat k)))"

text \<open>\<open>fromIndex\<close> is \<open>None\<close> when the caller leaves it out.\<close>

definition indexOf :: "'e state \<Rightarrow> nat \<Rightarrow> jsval \<Rightarrow> int option \<Rightarrow> int" where
  "indexOf s r key fromIndex =
     (let n = (case fromIndex of None \<Rightarrow> 0 | Some i \<Rightarrow> i)
      in if size_store s r = 0 then - 1 else Array_indexOf (keyArray s r) key n)"

definition lastIndexOf :: "'e state \<Rightarrow> nat \<Rightarrow> jsval \<Rightarrow> int option \<Rightarrow> int" where
  "lastIndexOf s r key fromIndex =
     (let n = (case fromIndex of None \<Rightarrow> int (size_store s r) - 1 | Some i \<Rightarrow> i)
      in if size_store s r = 0 then - 1 else Array_lastIndexOf (keyArray s r) key n)"

subsection \<open>random, randomKey, randomPair\<close>

text \<open>
  \<open>u\<close> is what \<open>Math.random()\<close> returns at the call, a number with \<open>0 \<le> u < 1\<close>;
  \<open>random_index u n\<close> is \<open>Math.floor(u * n)\<close>.
\<close>

definition random_index :: "real \<Rightarrow> nat \<Rightarrow> int" where
  "random_index u n = \<lfloor>u * real n\<rfloor>"

definition random :: "'e state \<Rightarrow> nat \<Rightarrow> real \<Rightarrow> jsval" where
  "random s r u = (let vals = array s r in js_nth vals (random_index u (length vals)))"

definition randomKey :: "'e state \<Rightarrow> nat \<Rightarrow> real \<Rightarrow> jsval" where
  "randomKey s r u = (let keys = keyArray s r in js_nth keys (random_index u (length keys)))"

definition randomPair :: "'e state \<Rightarrow> nat \<Rightarrow> real \<Rightarrow> jsval" where
  "randomPair s r u = (let key = randomKey s r u in Arr [key, Map_get (stores s ! r) key])"

subsection \<open>flat, flatMap\<close>

text \<open>The depth of a flattening: an integer, or \<open>Infinity\<close>.\<close>

datatype depth = Depth int | Infinity

fun positive :: "depth \<Rightarrow> bool" where
  "positive (Depth d) = (d > 0)"
| "positive Infinity = True"

fun less_than_one :: "depth \<Rightarrow> bool" where
  "less_than_one (Depth d) = (d < 1)"
| "less_than_one Infinity = False"

fun decrement :: "depth \<Rightarrow> depth" where
  "decrement (Depth d) = Depth (d - 1)"
| "decrement Infinity = Infinity"

text \<open>
  \<open>Array.prototype.flat(depth)\<close> on the elements of an array: an element that is an
  array is replaced by its own elements, flattened one level less, while the depth is
  positive.
\<close>

fun FlattenIntoArray :: "depth \<Rightarrow> jsval list \<Rightarrow> jsval list" where
  "FlattenIntoArray d [] = []"
| "FlattenIntoArray d (x # xs) =
     (case x of
        Arr ys \<Rightarrow>
          (if positive d then FlattenIntoArray (decrement d) ys @ FlattenIntoArray d xs
           else x # FlattenIntoArray d xs)
      | _ \<Rightarrow> x # FlattenIntoArray d xs)"

text \<open>\<open>[].concat(y)\<close>: the elements of \<open>y\<close> when it is an array, \<open>y\<close> alone otherwise.\<close>

fun spread :: "jsval \<Rightarrow> jsval list" where
  "spread (Arr ys) = ys"
| "spread y = [y]"

text \<open>\<open>[].concat(...xs)\<close>.\<close>

definition concat_spread :: "jsval list \<Rightarrow> jsval list" where
  "concat_spread xs = concat (map spread xs)"

text \<open>
  The loop of \<open>flat\<close> for an engine without \<open>Array.prototype.flat\<close>. One pass sets
  every array value to itself flattened by one level; the passes stop when the count
  \<open>i\<close> is used up, and \<open>i\<close> is set to 0 at the pass that starts with no array inside
  an array value. A pass meets each key once and sets no other key, so with distinct
  keys the value it reads at an entry is the one the entry had when the pass began.
\<close>

definition has_nested :: "jsval list \<Rightarrow> bool" where
  "has_nested vals =
     list_ex (\<lambda>val. case val of Arr xs \<Rightarrow> list_ex isArray xs | _ \<Rightarrow> False) vals"

fun flat_pass :: "nat \<Rightarrow> entries \<Rightarrow> 'e state \<Rightarrow> 'e state" where
  "flat_pass toFlat [] s = s"
| "flat_pass toFlat ((key, val) # rest) s =
     flat_pass toFlat rest
       (case val of
          Arr xs \<Rightarrow> Store_set toFlat key (Arr (concat_spread xs)) s
        | _ \<Rightarrow> s)"

partial_function (option) flat_polyfill :: "depth \<Rightarrow> nat \<Rightarrow> 'e state \<Rightarrow> 'e state option" where
  "flat_polyfill i toFlat s =
     (if positive i
      then flat_polyfill
             (decrement (if has_nested (array s toFlat) then i else Depth 0))
             toFlat
             (flat_pass toFlat (stores s ! toFlat) s)
      else Some s)"

declare flat_polyfill.simps [code]

text \<open>
  The source wraps \<open>flat\<close> and \<open>flatMap\<close> in \<open>util.deprecate\<close>, which prints a warning
  at the first call and then calls the method; the warning is not part of the model.
  \<open>native\<close> says whether the engine has \<open>Array.prototype.flat\<close> (and \<open>flatMap\<close>);
  \<open>strength\<close> is \<open>None\<close> when the caller leaves it out. The arrow function handed to
  \<open>toFlat.map\<close> neither throws nor has an effect, and its results \<open>[key, x]\<close> are kept
  as pairs. The result is \<open>None\<close> if the loop of the other branch does not end.
\<close>

definition flat ::
  "bool \<Rightarrow> nat \<Rightarrow> depth option \<Rightarrow> 'e state \<Rightarrow> ((error + nat) \<times> 'e state) option" where
  "flat native r strength_arg s =
     (let strength = (case strength_arg of None \<Rightarrow> Depth 1 | Some d \<Rightarrow> d) in
      if less_than_one strength
      then Some (Inl (RangeError ''strength must be greater than 1.''), s)
      else
        (case clone r s of (toFlat, s1) \<Rightarrow>
           if \<not> list_ex isArray (array s1 r) then Some (Inr toFlat, s1)
           else if native then
             (let mapped =
                    map (\<lambda>(key, val).
                           (key, case val of Arr xs \<Rightarrow> Arr (FlattenIntoArray strength xs) | _ \<Rightarrow> val))
                      (stores s1 ! toFlat)
              in Some (Inr toFlat, set_all toFlat mapped s1))
           else map_option (\<lambda>s2. (Inr toFlat, s2)) (flat_polyfill strength toFlat s1)))"

text \<open>
  \<open>xs.flatMap(callback, bind)\<close>: the callback is called on each element with its index
  and the array, and a result that is an array is spread into the result.
\<close>

fun Array_flatMap_loop ::
  "'e fn \<Rightarrow> jsval \<Rightarrow> jsval list \<Rightarrow> jsval list \<Rightarrow> nat \<Rightarrow> jsval list \<Rightarrow> 'e state
     \<Rightarrow> (error + jsval list) \<times> 'e state" where
  "Array_flatMap_loop f thisArg whole [] k acc s = (Inr acc, s)"
| "Array_flatMap_loop f thisArg whole (x # xs) k acc s =
     (case call f thisArg [x, Num (int k), Arr whole] s of
        (Inl err, s') \<Rightarrow> (Inl err, s')
      | (Inr y, s') \<Rightarrow> Array_flatMap_loop f thisArg whole xs (Suc k) (acc @ spread y) s')"

definition Array_flatMap ::
  "'e fn \<Rightarrow> jsval \<Rightarrow> jsval list \<Rightarrow> 'e state \<Rightarrow> (error + jsval list) \<times> 'e state" where
  "Array_flatMap f thisArg xs s = Array_flatMap_loop f thisArg xs xs 0 [] s"

text \<open>What the arrow function of \<open>flatMap\<close> makes of an array value, in either branch.\<close>

definition flatMap_value ::
  "bool \<Rightarrow> 'e fn \<Rightarrow> jsval \<Rightarrow> jsval list \<Rightarrow> 'e state \<Rightarrow> (error + jsval list) \<times> 'e state" where
  "flatMap_value native f bind xs s =
     (if native then Array_flatMap f bind xs s
      else (case call f bind [Arr xs, bind] s of
              (Inl err, s') \<Rightarrow> (Inl err, s')
            | (Inr y, s') \<Rightarrow> (Inr (spread y), s')))"

text \<open>
  \<open>toFlat.map\<close> with that arrow function; its results \<open>[key, x]\<close> are kept as pairs.
  \<open>toFlat\<close> is the clone just made, which no callback holds, so the loop runs over the
  entries it has when the loop begins.
\<close>

fun flatMap_loop ::
  "bool \<Rightarrow> 'e fn \<Rightarrow> jsval \<Rightarrow> entries \<Rightarrow> entries \<Rightarrow> 'e state \<Rightarrow> (error + entries) \<times> 'e state" where
  "flatMap_loop native f bind [] mapped s = (Inr mapped, s)"
| "flatMap_loop native f bind ((key, val) # rest) mapped s =
     (case val of
        Arr xs \<Rightarrow>
          (case flatMap_value native f bind xs s of
             (Inl err, s') \<Rightarrow> (Inl err, s')
           | (Inr ys, s') \<Rightarrow> flatMap_loop native f bind rest (mapped @ [(key, Arr ys)]) s')
      | _ \<Rightarrow> flatMap_loop native f bind rest (mapped @ [(key, val)]) s)"

definition flatMap ::
  "bool \<Rightarrow> nat \<Rightarrow> 'e callback \<Rightarrow> jsval \<Rightarrow> 'e state \<Rightarrow> (error + nat) \<times> 'e state" where
  "flatMap native r callback bind s =
     (case callback of
        NotFunction _ \<Rightarrow> (Inl (TypeError ''callback must be a Function.''), s)
      | Function f \<Rightarrow>
          (case clone r s of (toFlat, s1) \<Rightarrow>
             if \<not> list_ex isArray (array s1 r) then (Inr toFlat, s1)
             else
               (case flatMap_loop native f bind (stores s1 ! toFlat) [] s1 of
                  (Inl err, s2) \<Rightarrow> (Inl err, s2)
                | (Inr mapped, s2) \<Rightarrow> (Inr toFlat, set_all toFlat mapped s2))))"

section \<open>Callbacks the properties speak of\<close>

text \<open>A callback that returns on every call.\<close>

definition never_throws :: "'e fn \<Rightarrow> bool" where
  "never_throws f \<longleftrightarrow> (\<forall>H this args e. \<not> isl (fst (f H this args e)))"

text \<open>A callback that makes no \<open>set\<close> or \<open>delete\<close> call on the Store at \<open>r\<close>.\<close>

definition never_writes_to :: "'e fn \<Rightarrow> nat \<Rightarrow> bool" where
  "never_writes_to f r \<longleftrightarrow> (\<forall>H this args e. r \<notin> fst ` set (fst (snd (f H this args e))))"

text \<open>
  A callback that makes its \<open>set\<close> and \<open>delete\<close> calls on Stores at addresses below
  \<open>n\<close> only: with \<open>n\<close> the number of Stores of a state, on Stores of that state and on
  none made later.
\<close>

definition writes_below :: "'e fn \<Rightarrow> nat \<Rightarrow> bool" where
  "writes_below f n \<longleftrightarrow>
     (\<forall>H this args e. \<forall>a \<in> fst ` set (fst (snd (f H this args e))). a < n)"

text \<open>
  An argument that does not mutate the Store at \<open>r\<close>: a value that is not a function,
  or a function that makes no call on that Store.
\<close>

fun leaves_store :: "'e callback \<Rightarrow> nat \<Rightarrow> bool" where
  "leaves_store (NotFunction v) r = True"
| "leaves_store (Function f) r = never_writes_to f r"


text \<open>
  \<open>v => v > 1\<close>, the predicate of the specification's example, as it is on numbers
  (the examples hand it nothing else).
\<close>

definition value_above_one :: "'e fn" where
  "value_above_one H this args e =
     (Inr (Bool (case js_nth args 0 of Num n \<Rightarrow> 1 < n | _ \<Rightarrow> False)), [], e)"



text \<open>
  The Store \<open>[(a, 1), (b, 2), (c, 3)]\<close> of the specification's example, and the states
  after \<open>filter\<close> and then \<open>split\<close> with \<open>v => v > 1\<close> on it.
\<close>

definition example_abc :: "unit state" where
  "example_abc = \<lparr>stores = [[(Str ''a'', Num 1), (Str ''b'', Num 2), (Str ''c'', Num 3)]], env = ()\<rparr>"

definition example_filtered :: "unit state" where
  "example_filtered =
     \<lparr>stores = [[(Str ''a'', Num 1), (Str ''b'', Num 2), (Str ''c'', Num 3)],
                [(Str ''b'', Num 2), (Str ''c'', Num 3)]], env = ()\<rparr>"


text \<open>The Store of the example in the documentation of \<open>flat\<close>.\<close>

definition example_hec :: "unit state" where
  "example_hec =
     \<lparr>stores = [[(Str ''hec'', Arr [Num 1, Num 2, Arr [Num 3, Num 4, Arr [Num 5, Num 6]]])]],
      env = ()\<rparr>"

section \<open>What one pass of the other branch of flat does, and a measure of it\<close>

text \<open>
  One pass of the loop sets each array value to \<open>flatten_once\<close> of it; the weight of
  the entries, the sum of the sizes of their values, falls at every pass that starts
  with an array inside an array value. The proofs that the loop ends use both.
\<close>

definition flatten_once :: "jsval \<Rightarrow> jsval" where
  "flatten_once v = (case v of Arr xs \<Rightarrow> Arr (concat_spread xs) | _ \<Rightarrow> v)"

definition weight :: "entries \<Rightarrow> nat" where
  "weight es = sum_list (map (\<lambda>(k, v). size v) es)"

section \<open>Properties\<close>

subsection \<open>The state after a call, a set, a constructor\<close>

lemma stores_Store_set_other: "r' \<noteq> r \<Longrightarrow> stores (Store_set r k v s) ! r' = stores s ! r'"
  by (simp add: Store_set_def)

lemma length_stores_Store_set: "length (stores (Store_set r k v s)) = length (stores s)"
  by (simp add: Store_set_def)

lemma stores_Store_set_same:
  "r < length (stores s) \<Longrightarrow> stores (Store_set r k v s) ! r = Map_set (stores s ! r) k v"
  by (simp add: Store_set_def)

lemma env_Store_set: "env (Store_set r k v s) = env s"
  by (simp add: Store_set_def)

lemma stores_Store_delete_other: "r' \<noteq> r \<Longrightarrow> stores (Store_delete r k s) ! r' = stores s ! r'"
  by (simp add: Store_delete_def)

lemma length_stores_Store_delete: "length (stores (Store_delete r k s)) = length (stores s)"
  by (simp add: Store_delete_def)

lemma length_stores_set_all: "length (stores (set_all r es s)) = length (stores s)"
  by (induction r es s rule: set_all.induct) (simp_all add: length_stores_Store_set)

lemma stores_set_all_other: "r' \<noteq> r \<Longrightarrow> stores (set_all r es s) ! r' = stores s ! r'"
  by (induction r es s rule: set_all.induct) (simp_all add: stores_Store_set_other)

lemma env_set_all: "env (set_all r es s) = env s"
  by (induction r es s rule: set_all.induct) (simp_all add: env_Store_set)

lemma stores_set_all_same:
  "r < length (stores s) \<Longrightarrow>
   stores (set_all r es s) ! r = foldl (\<lambda>m (k, v). Map_set m k v) (stores s ! r) es"
  by (induction r es s rule: set_all.induct)
     (simp_all add: stores_Store_set_same length_stores_Store_set)

lemma Map_set_fresh: "k \<notin> fst ` set es \<Longrightarrow> Map_set es k v = es @ [(k, v)]"
  by (induction es) auto

lemma keys_Map_set: "fst ` set (Map_set es k v) = insert k (fst ` set es)"
  by (induction es) force+

lemma map_fst_Map_set:
  "map fst (Map_set es k v) = (if k \<in> fst ` set es then map fst es else map fst es @ [k])"
  by (induction es) force+

lemma distinct_keys_Map_set: "distinct_keys es \<Longrightarrow> distinct_keys (Map_set es k v)"
  by (simp add: distinct_keys_def map_fst_Map_set)

lemma length_Map_set:
  "length (Map_set es k v) = (if k \<in> fst ` set es then length es else Suc (length es))"
  by (induction es) force+

lemma foldl_Map_set_distinct:
  "distinct (map fst (es0 @ es)) \<Longrightarrow> foldl (\<lambda>m (k, v). Map_set m k v) es0 es = es0 @ es"
proof (induction es arbitrary: es0)
  case Nil
  then show ?case by simp
next
  case (Cons p es)
  obtain k v where p: "p = (k, v)" by (cases p)
  from Cons.prems have fresh: "k \<notin> fst ` set es0" by (auto simp: p)
  from Cons.prems have "distinct (map fst ((es0 @ [(k, v)]) @ es))" by (simp add: p)
  from Cons.IH [OF this] show ?case by (simp add: p Map_set_fresh [OF fresh])
qed

lemma Store_new_facts:
  assumes "Store_new es s = (c, s')"
  shows "c = length (stores s)"
    and "length (stores s') = Suc (length (stores s))"
    and "r < length (stores s) \<Longrightarrow> stores s' ! r = stores s ! r"
    and "stores s' ! c = foldl (\<lambda>m (k, v). Map_set m k v) [] es"
    and "env s' = env s"
  using assms
  by (auto simp: Store_new_def Let_def length_stores_set_all stores_set_all_other
      stores_set_all_same env_set_all nth_append)

lemma clone_facts:
  assumes "clone r s = (c, s')" and "distinct_keys (stores s ! r)"
  shows "c = length (stores s)"
    and "length (stores s') = Suc (length (stores s))"
    and "r' < length (stores s) \<Longrightarrow> stores s' ! r' = stores s ! r'"
    and "stores s' ! c = stores s ! r"
    and "env s' = env s"
  using assms Store_new_facts [of "stores s ! r" s c s']
    foldl_Map_set_distinct [of "[]" "stores s ! r"]
  by (simp_all add: clone_def distinct_keys_def)

lemma stores_mutate_other: "r' \<noteq> r \<Longrightarrow> stores (mutate r ms s) ! r' = stores s ! r'"
  by (induction r ms s rule: mutate.induct)
     (simp_all add: stores_Store_set_other stores_Store_delete_other)

subsection \<open>first, last\<close>

text \<open>
  C7. On an empty Store \<open>first\<close>, \<open>firstKey\<close>, \<open>last\<close> and \<open>lastKey\<close> return
  \<open>undefined\<close>; they are total functions into the values, so none of them throws. On
  a Store that is not empty \<open>first\<close> and \<open>firstKey\<close> return the value and the key of
  the entry at position 0, \<open>last\<close> and \<open>lastKey\<close> those of the entry at position
  \<open>size - 1\<close>, in insertion order.
\<close>

theorem first_last_positions:
  "(size_store s r = 0 \<longrightarrow>
      first s r = Undefined \<and> firstKey s r = Undefined \<and>
      last_store s r = Undefined \<and> lastKey s r = Undefined) \<and>
   (size_store s r \<noteq> 0 \<longrightarrow>
      first s r = snd (stores s ! r ! 0) \<and> firstKey s r = fst (stores s ! r ! 0) \<and>
      last_store s r = snd (stores s ! r ! (size_store s r - 1)) \<and>
      lastKey s r = fst (stores s ! r ! (size_store s r - 1)))"
proof (cases "stores s ! r = []")
  case True
  then show ?thesis
    by (simp add: first_def firstKey_def last_store_def lastKey_def js_nth_def
        array_def keyArray_def size_store_def)
next
  case False
  then have n: "0 < length (stores s ! r)" by simp
  then have "nat (int (length (stores s ! r)) - 1) = length (stores s ! r) - 1" by simp
  with n show ?thesis
    by (simp add: first_def firstKey_def last_store_def lastKey_def js_nth_def
        array_def keyArray_def size_store_def)
qed

theorem first_last_positions_witness:
  "size_store \<lparr>stores = [[], [(Str ''a'', Num 1), (Str ''b'', Num 2)]], env = ()\<rparr> 0 = 0 \<and>
   first \<lparr>stores = [[], [(Str ''a'', Num 1), (Str ''b'', Num 2)]], env = ()\<rparr> 0 = Undefined \<and>
   lastKey \<lparr>stores = [[], [(Str ''a'', Num 1), (Str ''b'', Num 2)]], env = ()\<rparr> 0 = Undefined \<and>
   size_store \<lparr>stores = [[], [(Str ''a'', Num 1), (Str ''b'', Num 2)]], env = ()\<rparr> 1 \<noteq> 0 \<and>
   first \<lparr>stores = [[], [(Str ''a'', Num 1), (Str ''b'', Num 2)]], env = ()\<rparr> 1 = Num 1 \<and>
   firstKey \<lparr>stores = [[], [(Str ''a'', Num 1), (Str ''b'', Num 2)]], env = ()\<rparr> 1 = Str ''a'' \<and>
   last_store \<lparr>stores = [[], [(Str ''a'', Num 1), (Str ''b'', Num 2)]], env = ()\<rparr> 1 = Num 2 \<and>
   lastKey \<lparr>stores = [[], [(Str ''a'', Num 1), (Str ''b'', Num 2)]], env = ()\<rparr> 1 = Str ''b''"
  using first_last_positions [of "\<lparr>stores = [[], [(Str ''a'', Num 1), (Str ''b'', Num 2)]], env = ()\<rparr>" 0]
    first_last_positions [of "\<lparr>stores = [[], [(Str ''a'', Num 1), (Str ''b'', Num 2)]], env = ()\<rparr>" 1]
  by (simp add: size_store_def)

subsection \<open>clone\<close>

text \<open>
  C3. \<open>clone\<close> returns a Store at a new address, of the size of the receiver and
  with the receiver's entries in the receiver's order; the receiver is as it was, and
  stays so whatever \<open>set\<close> and \<open>delete\<close> calls are then made on the clone.
\<close>

theorem clone_independent:
  assumes "live s r" and "distinct_keys (stores s ! r)" and "clone r s = (c, s')"
  shows "\<not> live s c \<and> live s' c \<and>
         size_store s' c = size_store s r \<and>
         stores s' ! c = stores s ! r \<and>
         stores s' ! r = stores s ! r \<and>
         stores (mutate c ms s') ! r = stores s ! r"
proof -
  note f = clone_facts [OF assms(3) assms(2)]
  from assms(1) have r: "r < length (stores s)" by (simp add: live_def)
  with f(1) have "r \<noteq> c" by simp
  then have "stores (mutate c ms s') ! r = stores s' ! r" by (rule stores_mutate_other)
  with f r show ?thesis by (simp add: live_def size_store_def)
qed

theorem clone_independent_witness:
  "live \<lparr>stores = [[(Str ''a'', Num 1), (Str ''b'', Num 2)]], env = ()\<rparr> 0 \<and>
   distinct_keys (stores \<lparr>stores = [[(Str ''a'', Num 1), (Str ''b'', Num 2)]], env = ()\<rparr> ! 0) \<and>
   clone 0 \<lparr>stores = [[(Str ''a'', Num 1), (Str ''b'', Num 2)]], env = ()\<rparr> =
     (1, \<lparr>stores = [[(Str ''a'', Num 1), (Str ''b'', Num 2)], [(Str ''a'', Num 1), (Str ''b'', Num 2)]], env = ()\<rparr>) \<and>
   stores (mutate 1 [Set (Str ''a'') (Num 7), Delete (Str ''b'')]
     \<lparr>stores = [[(Str ''a'', Num 1), (Str ''b'', Num 2)], [(Str ''a'', Num 1), (Str ''b'', Num 2)]], env = ()\<rparr>) ! 0
     = [(Str ''a'', Num 1), (Str ''b'', Num 2)] \<and>
   stores (mutate 1 [Set (Str ''a'') (Num 7), Delete (Str ''b'')]
     \<lparr>stores = [[(Str ''a'', Num 1), (Str ''b'', Num 2)], [(Str ''a'', Num 1), (Str ''b'', Num 2)]], env = ()\<rparr>) ! 1
     = [(Str ''a'', Num 7)]"
proof -
  let ?s = "\<lparr>stores = [[(Str ''a'', Num 1), (Str ''b'', Num 2)]], env = ()\<rparr>"
  let ?s' = "\<lparr>stores = [[(Str ''a'', Num 1), (Str ''b'', Num 2)], [(Str ''a'', Num 1), (Str ''b'', Num 2)]], env = ()\<rparr>"
  have 1: "live ?s 0" by (simp add: live_def)
  have 2: "distinct_keys (stores ?s ! 0)" by (simp add: distinct_keys_def)
  have 3: "clone 0 ?s = (1, ?s')"
    by (simp add: clone_def Store_new_def Store_set_def)
  have 4: "stores (mutate 1 [Set (Str ''a'') (Num 7), Delete (Str ''b'')] ?s') ! 1 = [(Str ''a'', Num 7)]"
    by (simp add: Store_set_def Store_delete_def)
  from clone_independent [OF 1 2 3, of "[Set (Str ''a'') (Num 7), Delete (Str ''b'')]"] 1 2 3 4
  show ?thesis by simp
qed

subsection \<open>concat\<close>

lemma set_Map_set_subset: "set (Map_set es k v) \<subseteq> insert (k, v) (set es)"
  by (induction es) (auto split: if_splits)

text \<open>
  C1. With one argument Store \<open>b\<close> that is not empty, \<open>concat\<close> returns a Store at a
  new address that holds the receiver's entries with the first entry of \<open>b\<close> set on
  them, and nothing else of \<open>b\<close>: an entry of \<open>b\<close> after the first is in the result
  only if the receiver has it. The receiver and \<open>b\<close> are as they were. The witness is
  the example of the specification: \<open>[(x, 1)]\<close> and \<open>[(y, 2), (z, 3)]\<close> give
  \<open>[(x, 1), (y, 2)]\<close>.
\<close>

theorem concat_first_pair_only:
  assumes a: "live s a" and b: "live s b"
    and da: "distinct_keys (stores s ! a)" and db: "distinct_keys (stores s ! b)"
    and B: "stores s ! b = (key, val) # rest"
  shows "\<exists>c s'. concat_store a [b] s = (Inr c, s') \<and>
           \<not> live s c \<and> live s' c \<and>
           stores s' ! c = Map_set (stores s ! a) key val \<and>
           (\<forall>p \<in> set rest. p \<in> set (stores s' ! c) \<longrightarrow> p \<in> set (stores s ! a)) \<and>
           stores s' ! a = stores s ! a \<and> stores s' ! b = stores s ! b"
proof -
  obtain c s1 where cl: "clone a s = (c, s1)" by (cases "clone a s")
  note f = clone_facts [OF cl da]
  from a b have la: "a < length (stores s)" and lb: "b < length (stores s)"
    by (simp_all add: live_def)
  have c: "c < length (stores s1)" "a \<noteq> c" "b \<noteq> c" using f(1,2) la lb by simp_all
  have s1b: "stores s1 ! b = (key, val) # rest" using f(3) [OF lb] B by simp
  let ?s' = "Store_set c key val s1"
  have run: "concat_store a [b] s = (Inr c, ?s')"
    by (simp add: concat_store_def cl s1b)
  have res: "stores ?s' ! c = Map_set (stores s ! a) key val"
    using stores_Store_set_same [OF c(1)] f(4) by simp
  have later: "p \<in> set (stores s ! a)" if p: "p \<in> set rest" "p \<in> set (stores ?s' ! c)" for p
  proof -
    from db B p(1) have "fst p \<noteq> key" by (auto simp: distinct_keys_def)
    then have "p \<noteq> (key, val)" by auto
    with p(2) res set_Map_set_subset [of "stores s ! a" key val] show ?thesis by auto
  qed
  have "\<not> live s c" "live ?s' c" using f(1) c(1) by (simp_all add: live_def length_stores_Store_set)
  moreover have "stores ?s' ! a = stores s ! a" "stores ?s' ! b = stores s ! b"
    using c(2,3) f(3) la lb by (simp_all add: stores_Store_set_other)
  ultimately show ?thesis using run res later by blast
qed

theorem concat_first_pair_only_witness:
  "live \<lparr>stores = [[(Str ''x'', Num 1)], [(Str ''y'', Num 2), (Str ''z'', Num 3)]], env = ()\<rparr> 0 \<and>
   live \<lparr>stores = [[(Str ''x'', Num 1)], [(Str ''y'', Num 2), (Str ''z'', Num 3)]], env = ()\<rparr> 1 \<and>
   concat_store 0 [1]
     \<lparr>stores = [[(Str ''x'', Num 1)], [(Str ''y'', Num 2), (Str ''z'', Num 3)]], env = ()\<rparr>
   = (Inr 2, \<lparr>stores = [[(Str ''x'', Num 1)], [(Str ''y'', Num 2), (Str ''z'', Num 3)],
                        [(Str ''x'', Num 1), (Str ''y'', Num 2)]], env = ()\<rparr>)
   \<and> (Str ''z'', Num 3) \<notin> set (stores (snd (concat_store 0 [1]
     \<lparr>stores = [[(Str ''x'', Num 1)], [(Str ''y'', Num 2), (Str ''z'', Num 3)]], env = ()\<rparr>)) ! 2)"
proof -
  let ?s = "\<lparr>stores = [[(Str ''x'', Num 1)], [(Str ''y'', Num 2), (Str ''z'', Num 3)]], env = ()\<rparr>"
  have 1: "live ?s 0" "live ?s 1" by (simp_all add: live_def)
  have 2: "distinct_keys (stores ?s ! 0)" "distinct_keys (stores ?s ! 1)"
    by (simp_all add: distinct_keys_def)
  have 3: "stores ?s ! 1 = (Str ''y'', Num 2) # [(Str ''z'', Num 3)]" by simp
  from concat_first_pair_only [OF 1 2 3]
  obtain c s' where r: "concat_store 0 [1] ?s = (Inr c, s')"
    and m: "stores s' ! c = Map_set (stores ?s ! 0) (Str ''y'') (Num 2)"
    and z: "\<forall>p \<in> set [(Str ''z'', Num 3)]. p \<in> set (stores s' ! c) \<longrightarrow> p \<in> set (stores ?s ! 0)"
    by blast
  have e: "concat_store 0 [1] ?s
    = (Inr 2, \<lparr>stores = [[(Str ''x'', Num 1)], [(Str ''y'', Num 2), (Str ''z'', Num 3)],
                        [(Str ''x'', Num 1), (Str ''y'', Num 2)]], env = ()\<rparr>)"
    by (simp add: concat_store_def clone_def Store_new_def Store_set_def)
  from r e have "c = 2" by simp
  with z r 1 show ?thesis using e by simp
qed

subsection \<open>random, randomKey, randomPair\<close>

lemma random_index_range:
  assumes "0 \<le> u" and "u < 1" and "0 < n"
  shows "0 \<le> random_index u n" and "random_index u n < int n"
proof -
  from assms(1) have "0 \<le> u * real n" by simp
  then show "0 \<le> random_index u n" by (simp add: random_index_def)
  from assms(2,3) have "u * real n < real n" by simp
  then show "random_index u n < int n" by (simp add: random_index_def floor_less_iff)
qed

lemma random_index_empty: "random_index u 0 = 0"
  by (simp add: random_index_def)

lemma js_nth_mem: "0 \<le> i \<Longrightarrow> i < int (length xs) \<Longrightarrow> js_nth xs i \<in> set xs"
  by (simp add: js_nth_def)

lemma Map_get_mem: "k \<in> fst ` set es \<Longrightarrow> (k, Map_get es k) \<in> set es"
  by (induction es) force+

text \<open>
  C4, amended. Whatever \<open>Math.random()\<close> returns in \<open>[0, 1)\<close>, on a Store that is not
  empty \<open>random\<close> returns a value of the Store, \<open>randomKey\<close> a key of it, and
  \<open>randomPair\<close> a two-element array of a key and its value in the Store. On an empty
  Store \<open>random\<close> and \<open>randomKey\<close> return \<open>undefined\<close>, and \<open>randomPair\<close> returns the
  array \<open>[undefined, undefined]\<close>, which is not \<open>undefined\<close>.
\<close>

theorem random_present:
  "(0 \<le> u \<and> u < 1 \<and> size_store s r \<noteq> 0 \<longrightarrow>
      random s r u \<in> set (array s r) \<and>
      randomKey s r u \<in> set (keyArray s r) \<and>
      (\<exists>k v. randomPair s r u = Arr [k, v] \<and> (k, v) \<in> set (stores s ! r))) \<and>
   (size_store s r = 0 \<longrightarrow>
      random s r u = Undefined \<and> randomKey s r u = Undefined \<and>
      randomPair s r u = Arr [Undefined, Undefined])"
proof (intro conjI impI)
  assume h: "0 \<le> u \<and> u < 1 \<and> size_store s r \<noteq> 0"
  then have n: "0 < length (stores s ! r)" by (simp add: size_store_def)
  from h n have i: "0 \<le> random_index u (length (stores s ! r))"
      "random_index u (length (stores s ! r)) < int (length (stores s ! r))"
    by (simp_all add: random_index_range)
  have "js_nth (array s r) (random_index u (length (array s r))) \<in> set (array s r)"
    by (rule js_nth_mem) (simp_all add: array_def i)
  then show "random s r u \<in> set (array s r)"
    by (simp add: random_def Let_def)
  have "js_nth (keyArray s r) (random_index u (length (keyArray s r))) \<in> set (keyArray s r)"
    by (rule js_nth_mem) (simp_all add: keyArray_def i)
  then show k: "randomKey s r u \<in> set (keyArray s r)"
    by (simp add: randomKey_def Let_def)
  then have "(randomKey s r u, Map_get (stores s ! r) (randomKey s r u)) \<in> set (stores s ! r)"
    by (simp add: keyArray_def Map_get_mem)
  then show "\<exists>k v. randomPair s r u = Arr [k, v] \<and> (k, v) \<in> set (stores s ! r)"
    by (simp add: randomPair_def Let_def)
next
  assume "size_store s r = 0"
  then have e: "stores s ! r = []" by (simp add: size_store_def)
  show "random s r u = Undefined"
    by (simp add: random_def array_def e random_index_empty js_nth_def)
  show k: "randomKey s r u = Undefined"
    by (simp add: randomKey_def keyArray_def e random_index_empty js_nth_def)
  show "randomPair s r u = Arr [Undefined, Undefined]"
    by (simp add: randomPair_def k e)
qed

theorem random_present_witness:
  "(0::real) \<le> 1 / 2 \<and> (1 / 2 :: real) < 1 \<and>
   size_store \<lparr>stores = [[(Str ''a'', Num 1), (Str ''b'', Num 2)], []], env = ()\<rparr> 0 \<noteq> 0 \<and>
   random \<lparr>stores = [[(Str ''a'', Num 1), (Str ''b'', Num 2)], []], env = ()\<rparr> 0 (1 / 2) = Num 2 \<and>
   randomKey \<lparr>stores = [[(Str ''a'', Num 1), (Str ''b'', Num 2)], []], env = ()\<rparr> 0 (1 / 2) = Str ''b'' \<and>
   randomPair \<lparr>stores = [[(Str ''a'', Num 1), (Str ''b'', Num 2)], []], env = ()\<rparr> 0 (1 / 2)
     = Arr [Str ''b'', Num 2] \<and>
   size_store \<lparr>stores = [[(Str ''a'', Num 1), (Str ''b'', Num 2)], []], env = ()\<rparr> 1 = 0 \<and>
   random \<lparr>stores = [[(Str ''a'', Num 1), (Str ''b'', Num 2)], []], env = ()\<rparr> 1 (1 / 2) = Undefined \<and>
   randomKey \<lparr>stores = [[(Str ''a'', Num 1), (Str ''b'', Num 2)], []], env = ()\<rparr> 1 (1 / 2) = Undefined \<and>
   randomPair \<lparr>stores = [[(Str ''a'', Num 1), (Str ''b'', Num 2)], []], env = ()\<rparr> 1 (1 / 2)
     = Arr [Undefined, Undefined]"
proof -
  let ?s = "\<lparr>stores = [[(Str ''a'', Num 1), (Str ''b'', Num 2)], []], env = ()\<rparr>"
  have i: "random_index (1 / 2) (Suc (Suc 0)) = 1" by (simp add: random_index_def)
  have "random ?s 0 (1 / 2) = Num 2" "randomKey ?s 0 (1 / 2) = Str ''b''"
    "randomPair ?s 0 (1 / 2) = Arr [Str ''b'', Num 2]"
    by (simp_all add: random_def randomKey_def randomPair_def array_def keyArray_def i js_nth_def
        Let_def)
  with random_present [of "1 / 2" ?s 0] random_present [of "1 / 2" ?s 1]
  show ?thesis by (simp add: size_store_def)
qed

theorem randomPair_empty_counterexample:
  "size_store \<lparr>stores = [[]], env = ()\<rparr> 0 = 0 \<and>
   randomPair \<lparr>stores = [[]], env = ()\<rparr> 0 0 = Arr [Undefined, Undefined] \<and>
   randomPair \<lparr>stores = [[]], env = ()\<rparr> 0 0 \<noteq> Undefined"
  by (simp add: size_store_def randomPair_def randomKey_def keyArray_def random_index_def js_nth_def)

subsection \<open>indexOf, lastIndexOf\<close>

lemma scan_up_absent: "x \<notin> set ys \<or> x = NaN \<Longrightarrow> scan_up ys x k = - 1"
  by (induction ys arbitrary: k) (auto simp: strict_equals_def)

lemma scan_up_found:
  "x \<noteq> NaN \<Longrightarrow> i < length ys \<Longrightarrow> ys ! i = x \<Longrightarrow> x \<notin> set (take i ys) \<Longrightarrow>
   scan_up ys x k = int (k + i)"
proof (induction ys arbitrary: k i)
  case Nil
  then show ?case by simp
next
  case (Cons y ys)
  show ?case
  proof (cases i)
    case 0
    with Cons.prems show ?thesis by (simp add: strict_equals_def)
  next
    case (Suc j)
    with Cons.prems have "y \<noteq> x" "j < length ys" "ys ! j = x" "x \<notin> set (take j ys)"
      by auto
    with Cons.IH [of j "Suc k"] Cons.prems(1) Suc show ?thesis
      by (simp add: strict_equals_def)
  qed
qed

lemma scan_down_absent:
  "(\<forall>j\<le>k. xs ! j \<noteq> x) \<or> x = NaN \<Longrightarrow> scan_down xs x k = - 1"
  by (induction k) (auto simp: strict_equals_def)

lemma scan_down_found:
  "x \<noteq> NaN \<Longrightarrow> i \<le> k \<Longrightarrow> xs ! i = x \<Longrightarrow> (\<forall>j. i < j \<and> j \<le> k \<longrightarrow> xs ! j \<noteq> x) \<Longrightarrow>
   scan_down xs x k = int i"
proof (induction k)
  case 0
  then show ?case by (simp add: strict_equals_def)
next
  case (Suc k)
  show ?case
  proof (cases "i = Suc k")
    case True
    with Suc.prems show ?thesis by (simp add: strict_equals_def)
  next
    case False
    with Suc.prems have "i \<le> k" "xs ! Suc k \<noteq> x" by auto
    with Suc show ?thesis by (simp add: strict_equals_def)
  qed
qed

text \<open>
  C5, amended. With \<open>fromIndex\<close> left out: for a key of the Store other than \<open>NaN\<close>,
  \<open>indexOf\<close> and \<open>lastIndexOf\<close> both return the position of the key in insertion
  order; for a key that is not in the Store, for \<open>NaN\<close>, and on an empty Store, both
  return -1. The searches compare with \<open>===\<close>, which \<open>NaN\<close> fails against itself, while
  the Map finds the key \<open>NaN\<close>.
\<close>

theorem indexOf_lastIndexOf_agree:
  assumes d: "distinct_keys (stores s ! r)"
  shows "(key \<in> set (keyArray s r) \<and> key \<noteq> NaN \<longrightarrow>
           (\<exists>i < size_store s r. keyArray s r ! i = key \<and>
              indexOf s r key None = int i \<and> lastIndexOf s r key None = int i)) \<and>
         (key \<notin> set (keyArray s r) \<or> key = NaN \<or> size_store s r = 0 \<longrightarrow>
            indexOf s r key None = - 1 \<and> lastIndexOf s r key None = - 1)"
proof (intro conjI impI)
  let ?ks = "keyArray s r"
  have len: "length ?ks = size_store s r" by (simp add: keyArray_def size_store_def)
  from d have dist: "distinct ?ks" by (simp add: distinct_keys_def keyArray_def)
  {
    assume h: "key \<in> set ?ks \<and> key \<noteq> NaN"
    then obtain i where i: "i < length ?ks" "?ks ! i = key" by (auto simp: in_set_conv_nth)
    from dist i have other: "\<And>j. j < length ?ks \<Longrightarrow> j \<noteq> i \<Longrightarrow> ?ks ! j \<noteq> key"
      by (auto simp: nth_eq_iff_index_eq)
    have "key \<notin> set (take i ?ks)"
    proof
      assume "key \<in> set (take i ?ks)"
      then obtain j where "j < i" "take i ?ks ! j = key"
        by (auto simp: in_set_conv_nth)
      with i other [of j] show False by simp
    qed
    with h i have up: "scan_up ?ks key 0 = int i" using scan_up_found [of key i ?ks 0] by simp
    have "scan_down ?ks key (length ?ks - 1) = int i"
      using h i other by (intro scan_down_found) auto
    moreover have "nat (int (length ?ks) - 1) = length ?ks - 1" by simp
    ultimately have down: "scan_down ?ks key (nat (int (length ?ks) - 1)) = int i" by simp
    from i have pos: "0 < length ?ks" by auto
    have "indexOf s r key None = int i"
      using up pos len by (simp add: indexOf_def Array_indexOf_def)
    moreover have "lastIndexOf s r key None = int i"
      using down pos len by (simp add: lastIndexOf_def Array_lastIndexOf_def Let_def)
    ultimately show "\<exists>i < size_store s r. ?ks ! i = key \<and>
              indexOf s r key None = int i \<and> lastIndexOf s r key None = int i"
      using i len by auto
  }
  {
    assume h: "key \<notin> set ?ks \<or> key = NaN \<or> size_store s r = 0"
    show "indexOf s r key None = - 1"
    proof (cases "size_store s r = 0")
      case True
      then show ?thesis by (simp add: indexOf_def)
    next
      case False
      with h have "key \<notin> set ?ks \<or> key = NaN" by simp
      then have "scan_up ?ks key 0 = - 1" by (rule scan_up_absent)
      with False len show ?thesis by (simp add: indexOf_def Array_indexOf_def)
    qed
    show "lastIndexOf s r key None = - 1"
    proof (cases "size_store s r = 0")
      case True
      then show ?thesis by (simp add: lastIndexOf_def)
    next
      case False
      with h have "key \<notin> set ?ks \<or> key = NaN" by simp
      moreover have "j < length ?ks" if "j \<le> length ?ks - 1" for j
        using that False len by simp
      ultimately have "(\<forall>j\<le>length ?ks - 1. ?ks ! j \<noteq> key) \<or> key = NaN"
        by (metis nth_mem)
      then have "scan_down ?ks key (length ?ks - 1) = - 1" by (rule scan_down_absent)
      moreover have "nat (int (length ?ks) - 1) = length ?ks - 1" by simp
      ultimately show ?thesis
        using False len by (simp add: lastIndexOf_def Array_lastIndexOf_def Let_def)
    qed
  }
qed

theorem indexOf_lastIndexOf_agree_witness:
  "distinct_keys
     (stores \<lparr>stores = [[(Str ''a'', Num 1), (Str ''b'', Num 2), (Str ''c'', Num 3)]], env = ()\<rparr> ! 0) \<and>
   Str ''b'' \<in> set (keyArray \<lparr>stores = [[(Str ''a'', Num 1), (Str ''b'', Num 2), (Str ''c'', Num 3)]], env = ()\<rparr> 0) \<and>
   indexOf \<lparr>stores = [[(Str ''a'', Num 1), (Str ''b'', Num 2), (Str ''c'', Num 3)]], env = ()\<rparr> 0
     (Str ''b'') None = 1 \<and>
   lastIndexOf \<lparr>stores = [[(Str ''a'', Num 1), (Str ''b'', Num 2), (Str ''c'', Num 3)]], env = ()\<rparr> 0
     (Str ''b'') None = 1 \<and>
   Str ''z'' \<notin> set (keyArray \<lparr>stores = [[(Str ''a'', Num 1), (Str ''b'', Num 2), (Str ''c'', Num 3)]], env = ()\<rparr> 0) \<and>
   indexOf \<lparr>stores = [[(Str ''a'', Num 1), (Str ''b'', Num 2), (Str ''c'', Num 3)]], env = ()\<rparr> 0
     (Str ''z'') None = - 1 \<and>
   lastIndexOf \<lparr>stores = [[(Str ''a'', Num 1), (Str ''b'', Num 2), (Str ''c'', Num 3)]], env = ()\<rparr> 0
     (Str ''z'') None = - 1"
proof -
  let ?s = "\<lparr>stores = [[(Str ''a'', Num 1), (Str ''b'', Num 2), (Str ''c'', Num 3)]], env = ()\<rparr>"
  have d: "distinct_keys (stores ?s ! 0)" by (simp add: distinct_keys_def)
  have b: "Str ''b'' \<in> set (keyArray ?s 0)" and z: "Str ''z'' \<notin> set (keyArray ?s 0)"
    by (simp_all add: keyArray_def)
  from indexOf_lastIndexOf_agree [OF d, of "Str ''b''"] b
  obtain i where "lastIndexOf ?s 0 (Str ''b'') None = int i" "indexOf ?s 0 (Str ''b'') None = int i"
    by auto
  moreover have "indexOf ?s 0 (Str ''b'') None = 1"
    by (simp add: indexOf_def Array_indexOf_def keyArray_def size_store_def strict_equals_def)
  ultimately have "lastIndexOf ?s 0 (Str ''b'') None = 1" "indexOf ?s 0 (Str ''b'') None = 1"
    by simp_all
  with indexOf_lastIndexOf_agree [OF d, of "Str ''z''"] d b z show ?thesis by simp
qed

theorem indexOf_NaN_counterexample:
  "NaN \<in> set (keyArray \<lparr>stores = [[(NaN, Num 1)]], env = ()\<rparr> 0) \<and>
   Map_get (stores \<lparr>stores = [[(NaN, Num 1)]], env = ()\<rparr> ! 0) NaN = Num 1 \<and>
   indexOf \<lparr>stores = [[(NaN, Num 1)]], env = ()\<rparr> 0 NaN None = - 1 \<and>
   lastIndexOf \<lparr>stores = [[(NaN, Num 1)]], env = ()\<rparr> 0 NaN None = - 1"
  by (simp add: indexOf_def lastIndexOf_def Array_indexOf_def Array_lastIndexOf_def
      keyArray_def size_store_def strict_equals_def)

subsection \<open>The calls of a callback\<close>

lemma length_stores_mutate: "length (stores (mutate a ms s)) = length (stores s)"
  by (induction a ms s rule: mutate.induct)
     (simp_all add: length_stores_Store_set length_stores_Store_delete)

lemma env_mutate: "env (mutate a ms s) = env s"
  by (induction a ms s rule: mutate.induct) (simp_all add: Store_set_def Store_delete_def)

lemma length_stores_write_all: "length (stores (write_all ws s)) = length (stores s)"
  by (induction ws s rule: write_all.induct) (simp_all add: length_stores_mutate)

lemma stores_write_all_other:
  "r \<notin> fst ` set ws \<Longrightarrow> stores (write_all ws s) ! r = stores s ! r"
  by (induction ws s rule: write_all.induct) (simp_all add: stores_mutate_other)

lemma iterator_after_writes_other:
  "r \<notin> fst ` set ws \<Longrightarrow> iterator_after_writes r ws remaining s = remaining"
  by (induction r ws remaining s rule: iterator_after_writes.induct) simp_all


lemma length_stores_call:
  "call f t args s = (res, s') \<Longrightarrow> length (stores s') = length (stores s)"
  by (auto simp: call_def length_stores_write_all split: prod.splits)

lemma stores_call_other:
  assumes "never_writes_to f r" and "call f t args s = (res, s')"
  shows "stores s' ! r = stores s ! r"
proof -
  obtain x ws e' where fx: "f (stores s) t args (env s) = (x, ws, e')"
    by (cases "f (stores s) t args (env s)")
  from assms(1) have "r \<notin> fst ` set (fst (snd (f (stores s) t args (env s))))"
    unfolding never_writes_to_def by blast
  with fx have "r \<notin> fst ` set ws" by simp
  from stores_write_all_other [OF this, of "s\<lparr>env := e'\<rparr>"] assms(2) fx show ?thesis
    by (auto simp: call_def)
qed

lemma iterator_after_call_other:
  assumes "never_writes_to f r"
  shows "iterator_after_call r remaining f t args s = remaining"
proof -
  obtain x ws e' where fx: "f (stores s) t args (env s) = (x, ws, e')"
    by (cases "f (stores s) t args (env s)")
  from assms have "r \<notin> fst ` set (fst (snd (f (stores s) t args (env s))))"
    unfolding never_writes_to_def by blast
  with fx have "r \<notin> fst ` set ws" by simp
  from iterator_after_writes_other [OF this] fx show ?thesis
    by (simp add: iterator_after_call_def)
qed

subsection \<open>The loops of filter, map and split\<close>

text \<open>One turn of each loop.\<close>

lemma filter_loop_Nil: "filter_loop f t r a [] i s = Some (Inr (), s)"
  by (subst filter_loop.simps) simp

lemma filter_loop_Cons:
  "filter_loop f t r a ((key, val) # rest) i s =
     (case call f t [val, key, Num (int i), StoreRef r] s of
        (Inl err, s') \<Rightarrow> Some (Inl err, s')
      | (Inr b, s') \<Rightarrow>
          filter_loop f t r a
            (iterator_after_call r rest f t [val, key, Num (int i), StoreRef r] s)
            (Suc i) (if truthy b then Store_set a key val s' else s'))"
  by (subst filter_loop.simps) simp

lemma map_loop_Nil: "map_loop f t r [] i arr s = Some (Inr arr, s)"
  by (subst map_loop.simps) simp

lemma map_loop_Cons:
  "map_loop f t r ((key, val) # rest) i arr s =
     (case call f t [val, key, Num (int i), StoreRef r] s of
        (Inl err, s') \<Rightarrow> Some (Inl err, s')
      | (Inr x, s') \<Rightarrow>
          map_loop f t r
            (iterator_after_call r rest f t [val, key, Num (int i), StoreRef r] s)
            (Suc i) (arr @ [x]) s')"
  by (subst map_loop.simps) simp

lemma split_loop_Nil: "split_loop f t r b c [] i s = Some (Inr (), s)"
  by (subst split_loop.simps) simp

lemma split_loop_Cons:
  "split_loop f t r b c ((key, val) # rest) i s =
     (case call f t [val, key, Num (int i), StoreRef r] s of
        (Inl err, s') \<Rightarrow> Some (Inl err, s')
      | (Inr y, s') \<Rightarrow>
          split_loop f t r b c
            (iterator_after_call r rest f t [val, key, Num (int i), StoreRef r] s)
            (Suc i)
            (if truthy y then Store_set b key val s' else Store_set c key val s'))"
  by (subst split_loop.simps) simp

text \<open>
  With a callback that makes no call on the receiver the loops end, and they leave
  every Store as it was that neither they nor the callback write to.
\<close>

lemma filter_loop_frame:
  assumes nw: "never_writes_to f r"
  shows "\<exists>res s'. filter_loop f t r a es i s = Some (res, s') \<and>
           length (stores s') = length (stores s) \<and>
           (\<forall>x. x \<noteq> a \<and> never_writes_to f x \<longrightarrow> stores s' ! x = stores s ! x)"
proof (induction es arbitrary: i s)
  case Nil
  then show ?case by (simp add: filter_loop_Nil)
next
  case (Cons p es)
  obtain key val where p: "p = (key, val)" by (cases p)
  let ?args = "[val, key, Num (int i), StoreRef r]"
  obtain x s1 where c: "call f t ?args s = (x, s1)" by (cases "call f t ?args s")
  note len = length_stores_call [OF c]
  have other: "stores s1 ! y = stores s ! y" if "never_writes_to f y" for y
    using stores_call_other [OF that c] .
  show ?case
  proof (cases x)
    case (Inl err)
    with p c len other show ?thesis by (simp add: filter_loop_Cons)
  next
    case (Inr b)
    let ?s2 = "if truthy b then Store_set a key val s1 else s1"
    from Cons.IH [of "Suc i" ?s2]
    obtain res s' where l: "filter_loop f t r a es (Suc i) ?s2 = Some (res, s')"
      and len2: "length (stores s') = length (stores ?s2)"
      and fr: "\<forall>x. x \<noteq> a \<and> never_writes_to f x \<longrightarrow> stores s' ! x = stores ?s2 ! x"
      by blast
    have "filter_loop f t r a (p # es) i s = Some (res, s')"
      using l by (simp add: p filter_loop_Cons c Inr iterator_after_call_other [OF nw])
    moreover have "length (stores s') = length (stores s)"
      using len2 len by (simp add: length_stores_Store_set)
    moreover have "stores s' ! x = stores s ! x" if "x \<noteq> a" "never_writes_to f x" for x
      using fr that other [OF that(2)] by (simp add: stores_Store_set_other)
    ultimately show ?thesis by blast
  qed
qed

lemma map_loop_frame:
  assumes nw: "never_writes_to f r"
  shows "\<exists>res s'. map_loop f t r es i arr s = Some (res, s') \<and>
           length (stores s') = length (stores s) \<and>
           (\<forall>x. never_writes_to f x \<longrightarrow> stores s' ! x = stores s ! x)"
proof (induction es arbitrary: i arr s)
  case Nil
  then show ?case by (simp add: map_loop_Nil)
next
  case (Cons p es)
  obtain key val where p: "p = (key, val)" by (cases p)
  let ?args = "[val, key, Num (int i), StoreRef r]"
  obtain x s1 where c: "call f t ?args s = (x, s1)" by (cases "call f t ?args s")
  note len = length_stores_call [OF c]
  have other: "stores s1 ! y = stores s ! y" if "never_writes_to f y" for y
    using stores_call_other [OF that c] .
  show ?case
  proof (cases x)
    case (Inl err)
    with p c len other show ?thesis by (simp add: map_loop_Cons)
  next
    case (Inr y)
    from Cons.IH [of "Suc i" "arr @ [y]" s1]
    obtain res s' where l: "map_loop f t r es (Suc i) (arr @ [y]) s1 = Some (res, s')"
      and len2: "length (stores s') = length (stores s1)"
      and fr: "\<forall>x. never_writes_to f x \<longrightarrow> stores s' ! x = stores s1 ! x"
      by blast
    have "map_loop f t r (p # es) i arr s = Some (res, s')"
      using l by (simp add: p map_loop_Cons c Inr iterator_after_call_other [OF nw])
    moreover have "length (stores s') = length (stores s)" using len2 len by simp
    moreover have "stores s' ! x = stores s ! x" if "never_writes_to f x" for x
      using fr that other [OF that] by simp
    ultimately show ?thesis by blast
  qed
qed

lemma split_loop_frame:
  assumes nw: "never_writes_to f r"
  shows "\<exists>res s'. split_loop f t r b c es i s = Some (res, s') \<and>
           length (stores s') = length (stores s) \<and>
           (\<forall>x. x \<noteq> b \<and> x \<noteq> c \<and> never_writes_to f x \<longrightarrow> stores s' ! x = stores s ! x)"
proof (induction es arbitrary: i s)
  case Nil
  then show ?case by (simp add: split_loop_Nil)
next
  case (Cons p es)
  obtain key val where p: "p = (key, val)" by (cases p)
  let ?args = "[val, key, Num (int i), StoreRef r]"
  obtain x s1 where cl: "call f t ?args s = (x, s1)" by (cases "call f t ?args s")
  note len = length_stores_call [OF cl]
  have other: "stores s1 ! y = stores s ! y" if "never_writes_to f y" for y
    using stores_call_other [OF that cl] .
  show ?case
  proof (cases x)
    case (Inl err)
    with p cl len other show ?thesis by (simp add: split_loop_Cons)
  next
    case (Inr y)
    let ?s2 = "if truthy y then Store_set b key val s1 else Store_set c key val s1"
    from Cons.IH [of "Suc i" ?s2]
    obtain res s' where l: "split_loop f t r b c es (Suc i) ?s2 = Some (res, s')"
      and len2: "length (stores s') = length (stores ?s2)"
      and fr: "\<forall>x. x \<noteq> b \<and> x \<noteq> c \<and> never_writes_to f x \<longrightarrow> stores s' ! x = stores ?s2 ! x"
      by blast
    have "split_loop f t r b c (p # es) i s = Some (res, s')"
      using l by (simp add: p split_loop_Cons cl Inr iterator_after_call_other [OF nw])
    moreover have "length (stores s') = length (stores s)"
      using len2 len by (simp add: length_stores_Store_set)
    moreover have "stores s' ! x = stores s ! x"
      if "x \<noteq> b" "x \<noteq> c" "never_writes_to f x" for x
      using fr that other [OF that(3)] by (simp add: stores_Store_set_other)
    ultimately show ?thesis by blast
  qed
qed

lemma Store_new_empty:
  "Store_new [] s = (length (stores s), s\<lparr>stores := stores s @ [[]]\<rparr>)"
  by (simp add: Store_new_def)

subsection \<open>The example callbacks and Stores\<close>

lemma example_abc_live: "live example_abc 0"
  by (simp add: example_abc_def live_def)

lemma example_abc_distinct: "distinct_keys (stores example_abc ! 0)"
  by (simp add: example_abc_def distinct_keys_def)


lemma value_above_one_total: "never_throws value_above_one"
  by (simp add: never_throws_def value_above_one_def)

lemma value_above_one_reads: "never_writes_to value_above_one r" "writes_below value_above_one n"
  by (simp_all add: never_writes_to_def writes_below_def value_above_one_def)

lemma example_filter_run:
  "filter_store 0 (Function value_above_one) Undefined example_abc = Some (Inr 1, example_filtered)"
  by (simp add: example_abc_def example_filtered_def filter_store_def Store_new_def call_def
      value_above_one_def js_nth_def Store_set_def filter_loop_Nil filter_loop_Cons
      iterator_after_call_def)


subsection \<open>What filter, map and split leave as it was\<close>

text \<open>
  C8. With a callback that makes no \<open>set\<close> or \<open>delete\<close> call on the receiver, and with
  a value that is not a function, \<open>filter\<close>, \<open>map\<close> and \<open>split\<close> end, by returning or
  by throwing, and leave the receiver as it was, with the entries and the size it had.
  The callback may write to the environment and to any other Store.
\<close>

theorem derive_leaves_receiver:
  assumes "live s r" and "leaves_store callback r"
  shows "(\<exists>res s'. filter_store r callback thisArg s = Some (res, s') \<and>
            stores s' ! r = stores s ! r \<and> size_store s' r = size_store s r) \<and>
         (\<exists>res s'. map_store r callback thisArg s = Some (res, s') \<and>
            stores s' ! r = stores s ! r \<and> size_store s' r = size_store s r) \<and>
         (\<exists>res s'. split_store r callback thisArg s = Some (res, s') \<and>
            stores s' ! r = stores s ! r \<and> size_store s' r = size_store s r)"
proof (cases callback)
  case (NotFunction v)
  then show ?thesis by (simp add: filter_store_def map_store_def split_store_def)
next
  case (Function f)
  with assms have r: "r < length (stores s)" and nw: "never_writes_to f r"
    by (simp_all add: live_def)
  have F: "\<exists>res s'. filter_store r callback thisArg s = Some (res, s') \<and>
            stores s' ! r = stores s ! r"
  proof -
    let ?a = "length (stores s)" and ?s1 = "s\<lparr>stores := stores s @ [[]]\<rparr>"
    from filter_loop_frame [OF nw, of thisArg ?a "stores ?s1 ! r" 0 ?s1]
    obtain res s2 where l: "filter_loop f thisArg r ?a (stores ?s1 ! r) 0 ?s1 = Some (res, s2)"
      and fr: "\<forall>x. x \<noteq> ?a \<and> never_writes_to f x \<longrightarrow> stores s2 ! x = stores ?s1 ! x"
      by blast
    from fr r nw have "stores s2 ! r = stores s ! r" by (simp add: nth_append)
    with l Function show ?thesis
      by (cases res) (simp_all add: filter_store_def Store_new_empty)
  qed
  have M: "\<exists>res s'. map_store r callback thisArg s = Some (res, s') \<and>
            stores s' ! r = stores s ! r"
  proof -
    from map_loop_frame [OF nw, of thisArg "stores s ! r" 0 "[]" s] nw Function
    show ?thesis by (auto simp: map_store_def)
  qed
  have S: "\<exists>res s'. split_store r callback thisArg s = Some (res, s') \<and>
            stores s' ! r = stores s ! r"
  proof -
    let ?b = "length (stores s)" and ?c = "Suc (length (stores s))"
    let ?s2 = "s\<lparr>stores := stores s @ [[], []]\<rparr>"
    from split_loop_frame [OF nw, of thisArg ?b ?c "stores ?s2 ! r" 0 ?s2]
    obtain res s3 where l: "split_loop f thisArg r ?b ?c (stores ?s2 ! r) 0 ?s2 = Some (res, s3)"
      and fr: "\<forall>x. x \<noteq> ?b \<and> x \<noteq> ?c \<and> never_writes_to f x \<longrightarrow> stores s3 ! x = stores ?s2 ! x"
      by blast
    from fr r nw have "stores s3 ! r = stores s ! r" by (simp add: nth_append)
    with l Function show ?thesis
      by (cases res) (simp_all add: split_store_def Store_new_empty)
  qed
  from F M S show ?thesis by (auto simp: size_store_def)
qed

theorem derive_leaves_receiver_witness:
  "live example_abc 0 \<and> leaves_store (Function (value_above_one :: unit fn)) 0 \<and>
   filter_store 0 (Function value_above_one) Undefined example_abc = Some (Inr 1, example_filtered) \<and>
   stores example_filtered ! 0 = stores example_abc ! 0 \<and>
   (\<exists>res s'. map_store 0 (Function value_above_one) Undefined example_abc = Some (res, s') \<and>
      stores s' ! 0 = stores example_abc ! 0 \<and> size_store s' 0 = 3) \<and>
   (\<exists>res s'. split_store 0 (Function value_above_one) Undefined example_abc = Some (res, s') \<and>
      stores s' ! 0 = stores example_abc ! 0 \<and> size_store s' 0 = 3)"
proof -
  have l: "leaves_store (Function (value_above_one :: unit fn)) 0"
    by (simp add: value_above_one_reads)
  have "size_store example_abc 0 = 3" by (simp add: example_abc_def size_store_def)
  with derive_leaves_receiver [OF example_abc_live l, of Undefined] example_abc_live l
    example_filter_run
  show ?thesis by auto
qed

subsection \<open>Invalid arguments\<close>

lemma call_never_throws:
  "never_throws f \<Longrightarrow> \<exists>y s1. call f t args s = (Inr y, s1)"
proof -
  assume n: "never_throws f"
  obtain x ws e' where fx: "f (stores s) t args (env s) = (x, ws, e')"
    by (cases "f (stores s) t args (env s)")
  from n have "\<not> isl (fst (f (stores s) t args (env s)))"
    unfolding never_throws_def by blast
  with fx have "\<not> isl x" by simp
  then obtain y where "x = Inr y" by (cases x) auto
  with fx show ?thesis by (simp add: call_def)
qed

text \<open>With a callback that never throws, a loop that ends ends without an error.\<close>

lemma filter_loop_no_error:
  assumes run: "filter_loop f t r a es i s = Some y"
  shows "never_throws f \<longrightarrow> fst y = Inr ()"
proof (rule filter_loop.raw_induct
    [where P = "\<lambda>f t r a es i s y. never_throws f \<longrightarrow> fst y = Inr ()", OF _ run], goal_cases)
  case (1 loop f t r a es i s y)
  show ?case
  proof
    assume n: "never_throws f"
    show "fst y = Inr ()"
    proof (cases es)
      case Nil
      with 1(2) show ?thesis by auto
    next
      case (Cons p rest)
      obtain key val where p: "p = (key, val)" by (cases p)
      from call_never_throws [OF n]
      obtain b s1 where "call f t [val, key, Num (int i), StoreRef r] s = (Inr b, s1)" by blast
      with 1(2) Cons p obtain es' s2 where "loop f t r a es' (Suc i) s2 = Some y" by auto
      from 1(1) [OF this] n show ?thesis by simp
    qed
  qed
qed

lemma map_loop_no_error:
  assumes run: "map_loop f t r es i arr s = Some y"
  shows "never_throws f \<longrightarrow> \<not> isl (fst y)"
proof (rule map_loop.raw_induct
    [where P = "\<lambda>f t r es i arr s y. never_throws f \<longrightarrow> \<not> isl (fst y)", OF _ run], goal_cases)
  case (1 loop f t r es i arr s y)
  show ?case
  proof
    assume n: "never_throws f"
    show "\<not> isl (fst y)"
    proof (cases es)
      case Nil
      with 1(2) show ?thesis by auto
    next
      case (Cons p rest)
      obtain key val where p: "p = (key, val)" by (cases p)
      from call_never_throws [OF n]
      obtain b s1 where "call f t [val, key, Num (int i), StoreRef r] s = (Inr b, s1)" by blast
      with 1(2) Cons p obtain es' arr' where "loop f t r es' (Suc i) arr' s1 = Some y" by auto
      from 1(1) [OF this] n show ?thesis by simp
    qed
  qed
qed

lemma split_loop_no_error:
  assumes run: "split_loop f t r b c es i s = Some y"
  shows "never_throws f \<longrightarrow> fst y = Inr ()"
proof (rule split_loop.raw_induct
    [where P = "\<lambda>f t r b c es i s y. never_throws f \<longrightarrow> fst y = Inr ()", OF _ run], goal_cases)
  case (1 loop f t r b c es i s y)
  show ?case
  proof
    assume n: "never_throws f"
    show "fst y = Inr ()"
    proof (cases es)
      case Nil
      with 1(2) show ?thesis by auto
    next
      case (Cons p rest)
      obtain key val where p: "p = (key, val)" by (cases p)
      from call_never_throws [OF n]
      obtain x s1 where "call f t [val, key, Num (int i), StoreRef r] s = (Inr x, s1)" by blast
      with 1(2) Cons p obtain es' s2 where "loop f t r b c es' (Suc i) s2 = Some y" by auto
      from 1(1) [OF this] n show ?thesis by simp
    qed
  qed
qed

lemma Array_flatMap_loop_returns:
  "never_throws f \<Longrightarrow> \<exists>ys s'. Array_flatMap_loop f t whole xs k acc s = (Inr ys, s')"
proof (induction xs arbitrary: k acc s)
  case Nil
  then show ?case by simp
next
  case (Cons x xs)
  from call_never_throws [OF Cons.prems]
  obtain y s1 where c: "call f t [x, Num (int k), Arr whole] s = (Inr y, s1)" by blast
  from Cons.IH [OF Cons.prems] show ?case by (simp add: c)
qed

lemma flatMap_value_returns:
  "never_throws f \<Longrightarrow> \<exists>ys s'. flatMap_value native f bind xs s = (Inr ys, s')"
proof (cases native)
  case True
  assume "never_throws f"
  from Array_flatMap_loop_returns [OF this] True show ?thesis
    by (simp add: flatMap_value_def Array_flatMap_def)
next
  case False
  assume "never_throws f"
  from call_never_throws [OF this]
  obtain y s1 where "call f bind [Arr xs, bind] s = (Inr y, s1)" by blast
  with False show ?thesis by (simp add: flatMap_value_def)
qed

lemma flatMap_loop_returns:
  "never_throws f \<Longrightarrow> \<exists>mapped' s'. flatMap_loop native f bind es mapped s = (Inr mapped', s')"
proof (induction es arbitrary: mapped s)
  case Nil
  then show ?case by simp
next
  case (Cons p es)
  obtain key val where p: "p = (key, val)" by (cases p)
  show ?case
  proof (cases val)
    case (Arr xs)
    from flatMap_value_returns [OF Cons.prems]
    obtain ys s1 where "flatMap_value native f bind xs s = (Inr ys, s1)" by blast
    with Cons.IH [OF Cons.prems] p Arr show ?thesis by simp
  qed (use Cons.IH [OF Cons.prems] p in simp_all)
qed

text \<open>
  C6. Handed a value that is not a function, \<open>filter\<close>, \<open>map\<close>, \<open>split\<close> and \<open>flatMap\<close>
  throw a \<open>TypeError\<close>, and \<open>flat\<close> throws a \<open>RangeError\<close> on a depth below 1; the state
  after the throw is the state before the call. Handed a function that never throws,
  none of \<open>filter\<close>, \<open>map\<close>, \<open>split\<close> and \<open>flatMap\<close> throws, whatever the function
  writes; and \<open>filter\<close>, \<open>map\<close> and \<open>split\<close> return when it makes no call on the
  receiver (\<open>flatMap\<close> returns in any case).
\<close>

theorem invalid_argument_errors:
  "filter_store r (NotFunction v) thisArg s
     = Some (Inl (TypeError ''callback must be a function.''), s) \<and>
   map_store r (NotFunction v) thisArg s
     = Some (Inl (TypeError ''callback must be a function''), s) \<and>
   split_store r (NotFunction v) thisArg s
     = Some (Inl (TypeError ''callback must be a Function.''), s) \<and>
   flatMap native r (NotFunction v) thisArg s = (Inl (TypeError ''callback must be a Function.''), s) \<and>
   (d < 1 \<longrightarrow>
      flat native r (Some (Depth d)) s = Some (Inl (RangeError ''strength must be greater than 1.''), s)) \<and>
   (never_throws f \<longrightarrow>
      (\<forall>err s'. filter_store r (Function f) thisArg s \<noteq> Some (Inl err, s')) \<and>
      (\<forall>err s'. map_store r (Function f) thisArg s \<noteq> Some (Inl err, s')) \<and>
      (\<forall>err s'. split_store r (Function f) thisArg s \<noteq> Some (Inl err, s')) \<and>
      \<not> isl (fst (flatMap native r (Function f) thisArg s)) \<and>
      (never_writes_to f r \<longrightarrow>
         (\<exists>a s'. filter_store r (Function f) thisArg s = Some (Inr a, s')) \<and>
         (\<exists>arr s'. map_store r (Function f) thisArg s = Some (Inr arr, s')) \<and>
         (\<exists>b c s'. split_store r (Function f) thisArg s = Some (Inr (b, c), s'))))"
proof (intro conjI impI allI)
  show "filter_store r (NotFunction v) thisArg s
      = Some (Inl (TypeError ''callback must be a function.''), s)"
    by (simp add: filter_store_def)
  show "map_store r (NotFunction v) thisArg s
      = Some (Inl (TypeError ''callback must be a function''), s)"
    by (simp add: map_store_def)
  show "split_store r (NotFunction v) thisArg s
      = Some (Inl (TypeError ''callback must be a Function.''), s)"
    by (simp add: split_store_def)
  show "flatMap native r (NotFunction v) thisArg s = (Inl (TypeError ''callback must be a Function.''), s)"
    by (simp add: flatMap_def)
  show "flat native r (Some (Depth d)) s = Some (Inl (RangeError ''strength must be greater than 1.''), s)"
    if "d < 1"
    using that by (simp add: flat_def)
next
  fix err s'
  assume n: "never_throws f"
  show "filter_store r (Function f) thisArg s \<noteq> Some (Inl err, s')"
  proof
    assume run: "filter_store r (Function f) thisArg s = Some (Inl err, s')"
    let ?a = "length (stores s)" and ?s1 = "s\<lparr>stores := stores s @ [[]]\<rparr>"
    from run obtain y where l: "filter_loop f thisArg r ?a (stores ?s1 ! r) 0 ?s1 = Some y"
      and "isl (fst y)"
      by (auto simp: filter_store_def Store_new_empty split: option.splits sum.splits)
    with filter_loop_no_error [OF l] n show False by simp
  qed
next
  fix err s'
  assume n: "never_throws f"
  show "map_store r (Function f) thisArg s \<noteq> Some (Inl err, s')"
  proof
    assume run: "map_store r (Function f) thisArg s = Some (Inl err, s')"
    then have l: "map_loop f thisArg r (stores s ! r) 0 [] s = Some (Inl err, s')"
      by (simp add: map_store_def)
    from map_loop_no_error [OF l] n show False by simp
  qed
next
  fix err s'
  assume n: "never_throws f"
  show "split_store r (Function f) thisArg s \<noteq> Some (Inl err, s')"
  proof
    assume run: "split_store r (Function f) thisArg s = Some (Inl err, s')"
    let ?b = "length (stores s)" and ?c = "Suc (length (stores s))"
    let ?s2 = "s\<lparr>stores := stores s @ [[], []]\<rparr>"
    from run obtain y where l: "split_loop f thisArg r ?b ?c (stores ?s2 ! r) 0 ?s2 = Some y"
      and "isl (fst y)"
      by (auto simp: split_store_def Store_new_empty split: option.splits sum.splits)
    with split_loop_no_error [OF l] n show False by simp
  qed
next
  assume n: "never_throws f"
  show "\<not> isl (fst (flatMap native r (Function f) thisArg s))"
  proof -
    obtain toFlat s1 where t: "clone r s = (toFlat, s1)" by (cases "clone r s")
    from flatMap_loop_returns [OF n]
    obtain mapped s2 where
      "flatMap_loop native f thisArg (stores s1 ! toFlat) [] s1 = (Inr mapped, s2)" by blast
    with t show ?thesis by (simp add: flatMap_def)
  qed
next
  assume n: "never_throws f" and nw: "never_writes_to f r"
  show "\<exists>a s'. filter_store r (Function f) thisArg s = Some (Inr a, s')"
  proof -
    let ?a = "length (stores s)" and ?s1 = "s\<lparr>stores := stores s @ [[]]\<rparr>"
    from filter_loop_frame [OF nw, of thisArg ?a "stores ?s1 ! r" 0 ?s1]
    obtain res s2 where l: "filter_loop f thisArg r ?a (stores ?s1 ! r) 0 ?s1 = Some (res, s2)"
      by blast
    from filter_loop_no_error [OF l] n have "res = Inr ()" by simp
    with l show ?thesis by (simp add: filter_store_def Store_new_empty)
  qed
  show "\<exists>arr s'. map_store r (Function f) thisArg s = Some (Inr arr, s')"
  proof -
    from map_loop_frame [OF nw, of thisArg "stores s ! r" 0 "[]" s]
    obtain res s2 where l: "map_loop f thisArg r (stores s ! r) 0 [] s = Some (res, s2)"
      by blast
    from map_loop_no_error [OF l] n obtain arr where "res = Inr arr" by (cases res) auto
    with l show ?thesis by (simp add: map_store_def)
  qed
  show "\<exists>b c s'. split_store r (Function f) thisArg s = Some (Inr (b, c), s')"
  proof -
    let ?b = "length (stores s)" and ?c = "Suc (length (stores s))"
    let ?s2 = "s\<lparr>stores := stores s @ [[], []]\<rparr>"
    from split_loop_frame [OF nw, of thisArg ?b ?c "stores ?s2 ! r" 0 ?s2]
    obtain res s3 where l: "split_loop f thisArg r ?b ?c (stores ?s2 ! r) 0 ?s2 = Some (res, s3)"
      by blast
    from split_loop_no_error [OF l] n have "res = Inr ()" by simp
    with l show ?thesis by (simp add: split_store_def Store_new_empty)
  qed
qed

theorem invalid_argument_errors_witness:
  "(0::int) < 1 \<and>
   flat True 0 (Some (Depth 0)) example_abc
     = Some (Inl (RangeError ''strength must be greater than 1.''), example_abc) \<and>
   filter_store 0 (NotFunction (Str ''f'')) Undefined example_abc
     = Some (Inl (TypeError ''callback must be a function.''), example_abc) \<and>
   never_throws (value_above_one :: unit fn) \<and>
   never_writes_to (value_above_one :: unit fn) 0 \<and>
   (\<exists>a s'. filter_store 0 (Function value_above_one) Undefined example_abc = Some (Inr a, s')) \<and>
   (\<exists>arr s'. map_store 0 (Function value_above_one) Undefined example_abc = Some (Inr arr, s')) \<and>
   (\<exists>b c s'. split_store 0 (Function value_above_one) Undefined example_abc
      = Some (Inr (b, c), s')) \<and>
   \<not> isl (fst (flatMap True 0 (Function value_above_one) Undefined example_abc)) \<and>
   \<not> isl (fst (flatMap True 0 (Function value_above_one) Undefined example_hec))"
proof -
  have n: "never_throws (value_above_one :: unit fn)" by (rule value_above_one_total)
  have w: "never_writes_to (value_above_one :: unit fn) 0" by (rule value_above_one_reads)
  from invalid_argument_errors [of 0 "Str ''f''" Undefined example_abc True 0 value_above_one]
    invalid_argument_errors [of 0 "Str ''f''" Undefined example_hec True 0 value_above_one]
    n w
  show ?thesis by simp
qed

subsection \<open>filter and split\<close>













subsection \<open>flat\<close>

text \<open>
  C10. On a Store none of whose values is an array, \<open>flat\<close> with a depth of 1 or more
  (or none, which stands for 1), in either branch of the source, returns a Store at a
  new address with the receiver's entries in the receiver's order, and the receiver is
  as it was.
\<close>

theorem flat_without_arrays:
  assumes r: "live s r" and d: "distinct_keys (stores s ! r)"
    and none: "\<forall>v \<in> set (array s r). \<not> isArray v"
    and strength: "strength = None \<or> strength = Some Infinity \<or>
                   (\<exists>n. strength = Some (Depth n) \<and> 1 \<le> n)"
  shows "\<exists>c s'. flat native r strength s = Some (Inr c, s') \<and>
           \<not> live s c \<and> live s' c \<and>
           stores s' ! c = stores s ! r \<and> stores s' ! r = stores s ! r"
proof -
  obtain c s1 where cl: "clone r s = (c, s1)" by (cases "clone r s")
  note f = clone_facts [OF cl d]
  from r have r': "r < length (stores s)" by (simp add: live_def)
  from f(3) [OF r'] have same: "stores s1 ! r = stores s ! r" .
  with none have "\<not> list_ex isArray (array s1 r)" by (simp add: array_def list_ex_iff)
  moreover from strength
  have "\<not> less_than_one (case strength of None \<Rightarrow> Depth 1 | Some d \<Rightarrow> d)" by auto
  ultimately have "flat native r strength s = Some (Inr c, s1)"
    by (simp add: flat_def cl)
  with f same show ?thesis by (simp add: live_def)
qed

theorem flat_without_arrays_witness:
  "live example_abc 0 \<and> distinct_keys (stores example_abc ! 0) \<and>
   list_all (\<lambda>v. \<not> isArray v) (array example_abc 0) \<and> (1::int) \<le> 2 \<and>
   flat True 0 (Some (Depth 2)) example_abc
     = Some (Inr 1, \<lparr>stores = [[(Str ''a'', Num 1), (Str ''b'', Num 2), (Str ''c'', Num 3)],
                              [(Str ''a'', Num 1), (Str ''b'', Num 2), (Str ''c'', Num 3)]],
                    env = ()\<rparr>)"
proof -
  have n: "\<forall>v \<in> set (array example_abc 0). \<not> isArray v"
    by (simp add: example_abc_def array_def)
  have d: "Some (Depth 2) = None \<or> Some (Depth 2) = Some Infinity \<or>
           (\<exists>n. Some (Depth 2) = Some (Depth n) \<and> 1 \<le> n)" by simp
  from flat_without_arrays [OF example_abc_live example_abc_distinct n d, of True]
  obtain c s' where run: "flat True 0 (Some (Depth 2)) example_abc = Some (Inr c, s')"
    and c: "\<not> live example_abc c" "live s' c"
    and eq: "stores s' ! c = stores example_abc ! 0" "stores s' ! 0 = stores example_abc ! 0"
    by blast
  have "flat True 0 (Some (Depth 2)) example_abc
     = Some (Inr 1, \<lparr>stores = [[(Str ''a'', Num 1), (Str ''b'', Num 2), (Str ''c'', Num 3)],
                              [(Str ''a'', Num 1), (Str ''b'', Num 2), (Str ''c'', Num 3)]],
                    env = ()\<rparr>)"
    by (simp add: flat_def clone_def Store_new_def Store_set_def example_abc_def array_def)
  moreover have "list_all (\<lambda>v. \<not> isArray v) (array example_abc 0)"
    by (simp add: example_abc_def array_def)
  ultimately show ?thesis using example_abc_live example_abc_distinct run by simp
qed

text \<open>
  The example in the documentation of \<open>flat\<close>, in the branch of an engine with
  \<open>Array.prototype.flat\<close> and in the other one.
\<close>

lemma flat_example_native_1:
  "flat True 0 (Some (Depth 1)) example_hec
   = Some (Inr 1,
       \<lparr>stores = [[(Str ''hec'', Arr [Num 1, Num 2, Arr [Num 3, Num 4, Arr [Num 5, Num 6]]])],
                  [(Str ''hec'', Arr [Num 1, Num 2, Num 3, Num 4, Arr [Num 5, Num 6]])]],
        env = ()\<rparr>)"
  by (simp add: example_hec_def flat_def clone_def Store_new_def Store_set_def array_def)

lemma flat_example_native_2:
  "flat True 0 (Some (Depth 2)) example_hec
   = Some (Inr 1,
       \<lparr>stores = [[(Str ''hec'', Arr [Num 1, Num 2, Arr [Num 3, Num 4, Arr [Num 5, Num 6]]])],
                  [(Str ''hec'', Arr [Num 1, Num 2, Num 3, Num 4, Num 5, Num 6])]],
        env = ()\<rparr>)"
  by (simp add: example_hec_def flat_def clone_def Store_new_def Store_set_def array_def)

lemma flat_example_polyfill_1:
  "flat False 0 (Some (Depth 1)) example_hec
   = Some (Inr 1,
       \<lparr>stores = [[(Str ''hec'', Arr [Num 1, Num 2, Arr [Num 3, Num 4, Arr [Num 5, Num 6]]])],
                  [(Str ''hec'', Arr [Num 1, Num 2, Num 3, Num 4, Arr [Num 5, Num 6]])]],
        env = ()\<rparr>)"
  by (simp add: example_hec_def flat_def clone_def Store_new_def Store_set_def array_def
      flat_polyfill.simps has_nested_def concat_spread_def)

lemma flat_example_polyfill_inf:
  "flat False 0 (Some Infinity) example_hec
   = Some (Inr 1,
       \<lparr>stores = [[(Str ''hec'', Arr [Num 1, Num 2, Arr [Num 3, Num 4, Arr [Num 5, Num 6]]])],
                  [(Str ''hec'', Arr [Num 1, Num 2, Num 3, Num 4, Num 5, Num 6])]],
        env = ()\<rparr>)"
  by (simp add: example_hec_def flat_def clone_def Store_new_def Store_set_def array_def
      flat_polyfill.simps has_nested_def concat_spread_def)

text \<open>
  The loop of the other branch ends: with an integer depth in any state, with
  \<open>Infinity\<close> when the Store is live and its keys are distinct. So \<open>flat\<close> returns, a
  Store or an error, on every Store with distinct keys.
\<close>

lemma Map_set_middle:
  "k \<notin> fst ` set done \<Longrightarrow> Map_set (done @ (k, v) # rest) k v' = done @ (k, v') # rest"
  by (induction "done") auto

lemma flat_pass_stores:
  "toFlat < length (stores s) \<Longrightarrow> stores s ! toFlat = done @ rest \<Longrightarrow>
   distinct (map fst (done @ rest)) \<Longrightarrow>
   length (stores (flat_pass toFlat rest s)) = length (stores s) \<and>
   stores (flat_pass toFlat rest s) ! toFlat = done @ map (\<lambda>(k, v). (k, flatten_once v)) rest"
proof (induction rest arbitrary: "done" s)
  case Nil
  then show ?case by simp
next
  case (Cons p rest)
  obtain key val where p: "p = (key, val)" by (cases p)
  let ?s1 = "case val of Arr xs \<Rightarrow> Store_set toFlat key (Arr (concat_spread xs)) s | _ \<Rightarrow> s"
  from Cons.prems(3) p have fresh: "key \<notin> fst ` set done" by auto
  have len: "length (stores ?s1) = length (stores s)"
    by (simp add: length_stores_Store_set split: jsval.splits)
  have "stores ?s1 ! toFlat = done @ (key, flatten_once val) # rest"
    using Cons.prems(1,2) p Map_set_middle [OF fresh]
    by (simp add: flatten_once_def stores_Store_set_same split: jsval.splits)
  then have st: "stores ?s1 ! toFlat = (done @ [(key, flatten_once val)]) @ rest" by simp
  have d: "distinct (map fst ((done @ [(key, flatten_once val)]) @ rest))"
    using Cons.prems(3) p by simp
  from Cons.IH [OF _ st d] Cons.prems(1) len p show ?case by simp
qed

lemma size_concat_spread: "size_list size (concat_spread xs) \<le> size_list size xs"
proof (induction xs)
  case Nil
  then show ?case by (simp add: concat_spread_def)
next
  case (Cons x xs)
  then show ?case by (cases x) (simp_all add: concat_spread_def)
qed

lemma size_concat_spread_less:
  "list_ex isArray xs \<Longrightarrow> size_list size (concat_spread xs) < size_list size xs"
proof (induction xs)
  case Nil
  then show ?case by simp
next
  case (Cons x xs)
  show ?case
  proof (cases "isArray x")
    case True
    then obtain ys where "x = Arr ys" by (cases x) auto
    with size_concat_spread [of xs] show ?thesis by (simp add: concat_spread_def)
  next
    case False
    with Cons.prems have "list_ex isArray xs" by simp
    from Cons.IH [OF this] show ?thesis by (cases x) (simp_all add: concat_spread_def)
  qed
qed

lemma size_flatten_once: "size (flatten_once v) \<le> size v"
  using size_concat_spread by (cases v) (simp_all add: flatten_once_def)

lemma weight_pass: "weight (map (\<lambda>(k, v). (k, flatten_once v)) es) \<le> weight es"
proof (induction es)
  case Nil
  then show ?case by simp
next
  case (Cons p es)
  obtain k v where "p = (k, v)" by (cases p)
  with Cons size_flatten_once [of v] show ?case by (simp add: weight_def)
qed

lemma weight_pass_less:
  "has_nested (map snd es) \<Longrightarrow> weight (map (\<lambda>(k, v). (k, flatten_once v)) es) < weight es"
proof (induction es)
  case Nil
  then show ?case by (simp add: has_nested_def)
next
  case (Cons p es)
  obtain k v where p: "p = (k, v)" by (cases p)
  show ?case
  proof (cases "case v of Arr xs \<Rightarrow> list_ex isArray xs | _ \<Rightarrow> False")
    case True
    then obtain xs where v: "v = Arr xs" "list_ex isArray xs" by (cases v) auto
    from size_concat_spread_less [OF v(2)] have "size (flatten_once v) < size v"
      by (simp add: v flatten_once_def)
    with weight_pass [of es] p show ?thesis by (simp add: weight_def)
  next
    case False
    with Cons.prems p have "has_nested (map snd es)" by (simp add: has_nested_def)
    from Cons.IH [OF this] size_flatten_once [of v] p show ?thesis by (simp add: weight_def)
  qed
qed

lemma flat_polyfill_infinite:
  "toFlat < length (stores s) \<Longrightarrow> distinct_keys (stores s ! toFlat) \<Longrightarrow>
   \<exists>s'. flat_polyfill Infinity toFlat s = Some s'"
proof (induction "weight (stores s ! toFlat)" arbitrary: s rule: less_induct)
  case less
  let ?es = "stores s ! toFlat"
  let ?s1 = "flat_pass toFlat ?es s"
  from less.prems have d: "distinct (map fst ([] @ ?es))" by (simp add: distinct_keys_def)
  from flat_pass_stores [OF less.prems(1) _ d]
  have len: "length (stores ?s1) = length (stores s)"
    and st: "stores ?s1 ! toFlat = map (\<lambda>(k, v). (k, flatten_once v)) ?es" by simp_all
  show ?case
  proof (cases "has_nested (array s toFlat)")
    case True
    then have "weight (stores ?s1 ! toFlat) < weight ?es"
      unfolding st array_def by (rule weight_pass_less)
    moreover have "toFlat < length (stores ?s1)" using len less.prems(1) by simp
    moreover have "distinct_keys (stores ?s1 ! toFlat)"
      using less.prems(2) unfolding st distinct_keys_def by (simp add: case_prod_unfold comp_def)
    ultimately obtain s' where "flat_polyfill Infinity toFlat ?s1 = Some s'"
      using less.hyps by blast
    with True show ?thesis by (subst flat_polyfill.simps) simp
  next
    case False
    have "flat_polyfill (Depth (- 1)) toFlat ?s1 = Some ?s1"
      by (subst flat_polyfill.simps) simp
    with False show ?thesis by (subst flat_polyfill.simps) simp
  qed
qed

lemma flat_polyfill_finite: "\<exists>s'. flat_polyfill (Depth n) toFlat s = Some s'"
proof (induction "nat n" arbitrary: n s)
  case 0
  then show ?case by (subst flat_polyfill.simps) simp
next
  case (Suc m)
  then have pos: "0 < n" and m: "m = nat (n - 1)" by simp_all
  let ?s1 = "flat_pass toFlat (stores s ! toFlat) s"
  show ?case
  proof (cases "has_nested (array s toFlat)")
    case True
    from Suc.hyps(1) [OF m, of ?s1] pos True show ?thesis
      by (subst flat_polyfill.simps) simp
  next
    case False
    have "flat_polyfill (Depth (- 1)) toFlat ?s1 = Some ?s1"
      by (subst flat_polyfill.simps) simp
    with pos False show ?thesis by (subst flat_polyfill.simps) simp
  qed
qed

lemma flat_returns:
  assumes r: "live s r" and d: "distinct_keys (stores s ! r)"
  shows "\<exists>res s'. flat native r strength s = Some (res, s')"
proof -
  obtain c s1 where cl: "clone r s = (c, s1)" by (cases "clone r s")
  note f = clone_facts [OF cl d]
  from f(1,2) have c: "c < length (stores s1)" by simp
  from f(4) d have dc: "distinct_keys (stores s1 ! c)" by simp
  let ?strength = "case strength of None \<Rightarrow> Depth 1 | Some d \<Rightarrow> d"
  have "\<exists>s2. flat_polyfill ?strength c s1 = Some s2"
  proof (cases ?strength)
    case (Depth n)
    with flat_polyfill_finite [of n c s1] show ?thesis by simp
  next
    case Infinity
    with flat_polyfill_infinite [OF c dc] show ?thesis by simp
  qed
  then obtain s2 where "flat_polyfill ?strength c s1 = Some s2" by blast
  then show ?thesis by (simp add: flat_def cl Let_def)
qed

subsection \<open>The invariant is kept\<close>

text \<open>
  Every method, and every \<open>set\<close> and \<open>delete\<close> of a caller, takes a state whose Stores
  have distinct keys to one whose Stores have distinct keys, the new Stores among
  them: the hypothesis of distinct keys in the properties above holds of every Store
  built with them.
\<close>

lemma set_Map_delete: "set (Map_delete es k) \<subseteq> set es"
  by (induction es) (auto split: if_splits)

lemma keys_Map_delete: "fst ` set (Map_delete es k) \<subseteq> fst ` set es"
  by (rule image_mono) (rule set_Map_delete)

lemma distinct_keys_Map_delete: "distinct_keys es \<Longrightarrow> distinct_keys (Map_delete es k)"
  unfolding distinct_keys_def
proof (induction es)
  case Nil
  then show ?case by simp
next
  case (Cons p es)
  obtain k' v' where p: "p = (k', v')" by (cases p)
  from Cons.prems p have "k' \<notin> fst ` set es" by simp
  with keys_Map_delete [of es k] have "k' \<notin> fst ` set (Map_delete es k)" by blast
  with Cons p show ?case by simp
qed

lemma well_formed_update:
  "well_formed s \<Longrightarrow> (r < length (stores s) \<Longrightarrow> distinct_keys es) \<Longrightarrow>
   well_formed (s\<lparr>stores := (stores s)[r := es]\<rparr>)"
  unfolding well_formed_def
  by (cases "r < length (stores s)")
     (auto simp: list_update_beyond dest: subsetD [OF set_update_subset_insert])

lemma well_formed_Store_set: "well_formed s \<Longrightarrow> well_formed (Store_set r k v s)"
  unfolding Store_set_def
  by (rule well_formed_update) (auto simp: well_formed_def distinct_keys_Map_set)

lemma well_formed_Store_delete: "well_formed s \<Longrightarrow> well_formed (Store_delete r k s)"
  unfolding Store_delete_def
  by (rule well_formed_update) (auto simp: well_formed_def distinct_keys_Map_delete)

lemma well_formed_mutate: "well_formed s \<Longrightarrow> well_formed (mutate r ms s)"
  by (induction r ms s rule: mutate.induct)
     (simp_all add: well_formed_Store_set well_formed_Store_delete)

lemma well_formed_set_all: "well_formed s \<Longrightarrow> well_formed (set_all r es s)"
  by (induction r es s rule: set_all.induct) (simp_all add: well_formed_Store_set)

lemma well_formed_Store_new:
  "well_formed s \<Longrightarrow> Store_new es s = (c, s') \<Longrightarrow> well_formed s'"
proof -
  assume wf: "well_formed s" and n: "Store_new es s = (c, s')"
  from wf have "well_formed (s\<lparr>stores := stores s @ [[]]\<rparr>)"
    by (auto simp: well_formed_def distinct_keys_def)
  from well_formed_set_all [OF this] n show ?thesis by (auto simp: Store_new_def Let_def)
qed

lemma well_formed_clone: "well_formed s \<Longrightarrow> clone r s = (c, s') \<Longrightarrow> well_formed s'"
  unfolding clone_def by (rule well_formed_Store_new)

lemma well_formed_write_all: "well_formed s \<Longrightarrow> well_formed (write_all ws s)"
  by (induction ws s rule: write_all.induct) (simp_all add: well_formed_mutate)

lemma well_formed_call: "well_formed s \<Longrightarrow> call f t args s = (x, s') \<Longrightarrow> well_formed s'"
proof -
  assume wf: "well_formed s" and c: "call f t args s = (x, s')"
  obtain y ws e' where fx: "f (stores s) t args (env s) = (y, ws, e')"
    by (cases "f (stores s) t args (env s)")
  from wf have "well_formed (s\<lparr>env := e'\<rparr>)" by (simp add: well_formed_def)
  from well_formed_write_all [OF this] c fx show ?thesis by (auto simp: call_def)
qed

lemma well_formed_concat_loop:
  "well_formed s \<Longrightarrow> concat_loop store bs s = (res, s') \<Longrightarrow> well_formed s'"
proof (induction bs arbitrary: s)
  case Nil
  then show ?case by simp
next
  case (Cons b bs)
  show ?case
  proof (cases "stores s ! b")
    case Nil
    with Cons.prems show ?thesis by simp
  next
    case (Cons p ps)
    obtain key val where "p = (key, val)" by (cases p)
    with Cons Cons.prems(2) have "concat_loop store bs (Store_set store key val s) = (res, s')"
      by simp
    from Cons.IH [OF well_formed_Store_set [OF Cons.prems(1)] this] show ?thesis .
  qed
qed

lemma well_formed_concat_store:
  "well_formed s \<Longrightarrow> concat_store r args s = (res, s') \<Longrightarrow> well_formed s'"
proof -
  assume wf: "well_formed s" and run: "concat_store r args s = (res, s')"
  obtain c s1 where cl: "clone r s = (c, s1)" by (cases "clone r s")
  obtain res2 s2 where l: "concat_loop c args s1 = (res2, s2)" by (cases "concat_loop c args s1")
  from run cl l have "s' = s2" by (auto simp: concat_store_def split: sum.splits)
  with well_formed_concat_loop [OF well_formed_clone [OF wf cl] l] show ?thesis by simp
qed

lemma well_formed_filter_loop:
  assumes run: "filter_loop f t r a es i s = Some y"
  shows "well_formed s \<longrightarrow> well_formed (snd y)"
proof (rule filter_loop.raw_induct
    [where P = "\<lambda>f t r a es i s y. well_formed s \<longrightarrow> well_formed (snd y)", OF _ run], goal_cases)
  case (1 loop f t r a es i s y)
  show ?case
  proof
    assume wf: "well_formed s"
    show "well_formed (snd y)"
    proof (cases es)
      case Nil
      with 1(2) wf show ?thesis by auto
    next
      case (Cons p rest)
      obtain key val where p: "p = (key, val)" by (cases p)
      let ?args = "[val, key, Num (int i), StoreRef r]"
      obtain x s1 where c: "call f t ?args s = (x, s1)" by (cases "call f t ?args s")
      note wf1 = well_formed_call [OF wf c]
      show ?thesis
      proof (cases x)
        case (Inl err)
        with 1(2) Cons p c wf1 show ?thesis by auto
      next
        case (Inr b)
        let ?s2 = "if truthy b then Store_set a key val s1 else s1"
        from 1(2) Cons p c Inr obtain es' where "loop f t r a es' (Suc i) ?s2 = Some y" by auto
        moreover from wf1 have "well_formed ?s2" by (simp add: well_formed_Store_set)
        ultimately show ?thesis using 1(1) by blast
      qed
    qed
  qed
qed

lemma well_formed_filter_store:
  assumes wf: "well_formed s" and run: "filter_store r callback t s = Some (res, s')"
  shows "well_formed s'"
proof (cases callback)
  case (NotFunction v)
  with run wf show ?thesis by (simp add: filter_store_def)
next
  case (Function f)
  obtain a s1 where n: "Store_new [] s = (a, s1)" by (cases "Store_new [] s")
  from run Function n obtain y where l: "filter_loop f t r a (stores s1 ! r) 0 s1 = Some y"
    and "s' = snd y"
    by (auto simp: filter_store_def split: option.splits sum.splits)
  with well_formed_filter_loop [OF l] well_formed_Store_new [OF wf n] show ?thesis by simp
qed

lemma well_formed_map_loop:
  assumes run: "map_loop f t r es i arr s = Some y"
  shows "well_formed s \<longrightarrow> well_formed (snd y)"
proof (rule map_loop.raw_induct
    [where P = "\<lambda>f t r es i arr s y. well_formed s \<longrightarrow> well_formed (snd y)", OF _ run], goal_cases)
  case (1 loop f t r es i arr s y)
  show ?case
  proof
    assume wf: "well_formed s"
    show "well_formed (snd y)"
    proof (cases es)
      case Nil
      with 1(2) wf show ?thesis by auto
    next
      case (Cons p rest)
      obtain key val where p: "p = (key, val)" by (cases p)
      let ?args = "[val, key, Num (int i), StoreRef r]"
      obtain x s1 where c: "call f t ?args s = (x, s1)" by (cases "call f t ?args s")
      note wf1 = well_formed_call [OF wf c]
      show ?thesis
      proof (cases x)
        case (Inl err)
        with 1(2) Cons p c wf1 show ?thesis by auto
      next
        case (Inr b)
        from 1(2) Cons p c Inr obtain es' arr' where "loop f t r es' (Suc i) arr' s1 = Some y"
          by auto
        with wf1 show ?thesis using 1(1) by blast
      qed
    qed
  qed
qed

lemma well_formed_map_store:
  assumes wf: "well_formed s" and run: "map_store r callback t s = Some (res, s')"
  shows "well_formed s'"
proof (cases callback)
  case (NotFunction v)
  with run wf show ?thesis by (simp add: map_store_def)
next
  case (Function f)
  with run have "map_loop f t r (stores s ! r) 0 [] s = Some (res, s')"
    by (simp add: map_store_def)
  from well_formed_map_loop [OF this] wf show ?thesis by simp
qed

lemma well_formed_split_loop:
  assumes run: "split_loop f t r b c es i s = Some y"
  shows "well_formed s \<longrightarrow> well_formed (snd y)"
proof (rule split_loop.raw_induct
    [where P = "\<lambda>f t r b c es i s y. well_formed s \<longrightarrow> well_formed (snd y)", OF _ run], goal_cases)
  case (1 loop f t r b c es i s y)
  show ?case
  proof
    assume wf: "well_formed s"
    show "well_formed (snd y)"
    proof (cases es)
      case Nil
      with 1(2) wf show ?thesis by auto
    next
      case (Cons p rest)
      obtain key val where p: "p = (key, val)" by (cases p)
      let ?args = "[val, key, Num (int i), StoreRef r]"
      obtain x s1 where cl: "call f t ?args s = (x, s1)" by (cases "call f t ?args s")
      note wf1 = well_formed_call [OF wf cl]
      show ?thesis
      proof (cases x)
        case (Inl err)
        with 1(2) Cons p cl wf1 show ?thesis by auto
      next
        case (Inr v)
        let ?s2 = "if truthy v then Store_set b key val s1 else Store_set c key val s1"
        from 1(2) Cons p cl Inr obtain es' where "loop f t r b c es' (Suc i) ?s2 = Some y"
          by auto
        moreover from wf1 have "well_formed ?s2" by (simp add: well_formed_Store_set)
        ultimately show ?thesis using 1(1) by blast
      qed
    qed
  qed
qed

lemma well_formed_split_store:
  assumes wf: "well_formed s" and run: "split_store r callback t s = Some (res, s')"
  shows "well_formed s'"
proof (cases callback)
  case (NotFunction v)
  with run wf show ?thesis by (simp add: split_store_def)
next
  case (Function f)
  obtain b s1 where n1: "Store_new [] s = (b, s1)" by (cases "Store_new [] s")
  obtain c s2 where n2: "Store_new [] s1 = (c, s2)" by (cases "Store_new [] s1")
  from run Function n1 n2
  obtain y where l: "split_loop f t r b c (stores s2 ! r) 0 s2 = Some y" and "s' = snd y"
    by (auto simp: split_store_def split: option.splits sum.splits)
  with well_formed_split_loop [OF l]
    well_formed_Store_new [OF well_formed_Store_new [OF wf n1] n2]
  show ?thesis by simp
qed

lemma well_formed_flat_pass: "well_formed s \<Longrightarrow> well_formed (flat_pass toFlat es s)"
proof (induction es arbitrary: s)
  case Nil
  then show ?case by simp
next
  case (Cons p es)
  obtain key val where p: "p = (key, val)" by (cases p)
  from Cons.prems
  have "well_formed (case val of Arr xs \<Rightarrow> Store_set toFlat key (Arr (concat_spread xs)) s | _ \<Rightarrow> s)"
    by (simp add: well_formed_Store_set split: jsval.splits)
  from Cons.IH [OF this] p show ?case by simp
qed

lemma well_formed_flat_polyfill:
  assumes "flat_polyfill i toFlat s = Some s'"
  shows "well_formed s \<longrightarrow> well_formed s'"
proof (rule flat_polyfill.raw_induct [OF _ assms])
  fix loop :: "depth \<Rightarrow> nat \<Rightarrow> 'a state \<Rightarrow> 'a state option" and i toFlat s s'
  assume IH: "\<And>i toFlat s s'. loop i toFlat s = Some s' \<Longrightarrow> well_formed s \<longrightarrow> well_formed s'"
    and body: "(if positive i
          then loop (decrement (if has_nested (array s toFlat) then i else Depth 0)) toFlat
                 (flat_pass toFlat (stores s ! toFlat) s)
          else Some s) = Some s'"
  show "well_formed s \<longrightarrow> well_formed s'"
  proof (cases "positive i")
    case True
    with body IH show ?thesis by (auto simp: well_formed_flat_pass)
  next
    case False
    with body show ?thesis by simp
  qed
qed

lemma well_formed_flat:
  assumes wf: "well_formed s" and run: "flat native r strength s = Some (res, s')"
  shows "well_formed s'"
proof -
  obtain c s1 where cl: "clone r s = (c, s1)" by (cases "clone r s")
  note wf1 = well_formed_clone [OF wf cl]
  let ?d = "case strength of None \<Rightarrow> Depth 1 | Some d \<Rightarrow> d"
  show ?thesis
  proof (cases "less_than_one ?d")
    case True
    with run wf show ?thesis by (simp add: flat_def)
  next
    case low: False
    show ?thesis
    proof (cases "list_ex isArray (array s1 r)")
      case False
      with run low cl wf1 show ?thesis by (simp add: flat_def)
    next
      case arr: True
      show ?thesis
      proof (cases native)
        case True
        with run low cl arr wf1 show ?thesis
          by (auto simp: flat_def Let_def well_formed_set_all)
      next
        case False
        with run low cl arr have "flat_polyfill ?d c s1 = Some s'"
          by (auto simp: flat_def Let_def)
        from well_formed_flat_polyfill [OF this] wf1 show ?thesis by simp
      qed
    qed
  qed
qed

lemma well_formed_flatMap_value:
  assumes wf: "well_formed s" and run: "flatMap_value native f bind xs s = (res, s')"
  shows "well_formed s'"
proof -
  have loop: "well_formed s0 \<Longrightarrow> Array_flatMap_loop f bind whole ys k acc s0 = (res, s')
      \<Longrightarrow> well_formed s'" for whole ys k acc s0
  proof (induction ys arbitrary: k acc s0)
    case Nil
    then show ?case by simp
  next
    case (Cons y ys)
    obtain x s1 where c: "call f bind [y, Num (int k), Arr whole] s0 = (x, s1)"
      by (cases "call f bind [y, Num (int k), Arr whole] s0")
    note wf1 = well_formed_call [OF Cons.prems(1) c]
    show ?case
    proof (cases x)
      case (Inl err)
      with Cons.prems c wf1 show ?thesis by simp
    next
      case (Inr z)
      with Cons.prems c
      have "Array_flatMap_loop f bind whole ys (Suc k) (acc @ spread z) s1 = (res, s')"
        by simp
      from Cons.IH [OF wf1 this] show ?thesis .
    qed
  qed
  show ?thesis
  proof (cases native)
    case True
    with run loop [OF wf] show ?thesis by (simp add: flatMap_value_def Array_flatMap_def)
  next
    case False
    obtain x s1 where c: "call f bind [Arr xs, bind] s = (x, s1)"
      by (cases "call f bind [Arr xs, bind] s")
    with run False well_formed_call [OF wf c] show ?thesis
      by (auto simp: flatMap_value_def split: sum.splits)
  qed
qed

lemma well_formed_flatMap_loop:
  "well_formed s \<Longrightarrow> flatMap_loop native f bind es mapped s = (res, s') \<Longrightarrow> well_formed s'"
proof (induction es arbitrary: mapped s)
  case Nil
  then show ?case by simp
next
  case (Cons p es)
  obtain key val where p: "p = (key, val)" by (cases p)
  show ?case
  proof (cases val)
    case (Arr xs)
    obtain x s1 where v: "flatMap_value native f bind xs s = (x, s1)"
      by (cases "flatMap_value native f bind xs s")
    note wf1 = well_formed_flatMap_value [OF Cons.prems(1) v]
    show ?thesis
    proof (cases x)
      case (Inl err)
      with Cons.prems p Arr v wf1 show ?thesis by simp
    next
      case (Inr ys)
      with Cons.prems p Arr v
      have "flatMap_loop native f bind es (mapped @ [(key, Arr ys)]) s1 = (res, s')" by simp
      from Cons.IH [OF wf1 this] show ?thesis .
    qed
  qed (use Cons p in simp_all)
qed

lemma well_formed_flatMap:
  assumes wf: "well_formed s" and run: "flatMap native r callback bind s = (res, s')"
  shows "well_formed s'"
proof (cases callback)
  case (NotFunction v)
  with run wf show ?thesis by (simp add: flatMap_def)
next
  case (Function f)
  obtain c s1 where cl: "clone r s = (c, s1)" by (cases "clone r s")
  note wf1 = well_formed_clone [OF wf cl]
  show ?thesis
  proof (cases "list_ex isArray (array s1 r)")
    case False
    with run Function cl wf1 show ?thesis by (simp add: flatMap_def)
  next
    case True
    obtain x s2 where l: "flatMap_loop native f bind (stores s1 ! c) [] s1 = (x, s2)"
      by (cases "flatMap_loop native f bind (stores s1 ! c) [] s1")
    note wf2 = well_formed_flatMap_loop [OF wf1 l]
    from run Function cl True l wf2 show ?thesis
      by (auto simp: flatMap_def well_formed_set_all split: sum.splits)
  qed
qed

subsection \<open>The examples of the specification\<close>

lemma example_positions:
  "indexOf example_abc 0 (Str ''b'') None = 1"
  "first example_abc 0 = Num 1"
  "last_store example_abc 0 = Num 3"
  by (simp_all add: example_abc_def indexOf_def Array_indexOf_def keyArray_def array_def
      size_store_def strict_equals_def first_def last_store_def js_nth_def)

lemma example_map:
  "map_store 0 (Function value_above_one) Undefined example_abc
   = Some (Inr [Bool False, Bool True, Bool True], example_abc)"
  by (simp add: example_abc_def map_store_def call_def value_above_one_def js_nth_def
      map_loop_Nil map_loop_Cons iterator_after_call_def)

subsection \<open>An iteration that sees the calls of its callback\<close>

text \<open>
  At the first entry of \<open>[(a, 1), (b, 2)]\<close> the callback sets the new key \<open>z\<close>, sets
  \<open>b\<close> to 7, deletes \<open>a\<close> and sets it again: the loop of \<open>map\<close> then meets \<open>b\<close> with 7,
  \<open>z\<close>, and \<open>a\<close> once more, at the end.
\<close>

lemma example_iteration_sees_writes:
  "map_store 0
     (Function (\<lambda>H this args e.
        (Inr (Arr [js_nth args 1, js_nth args 0]),
         (if js_nth args 2 = Num 0
          then [(0, Set (Str ''z'') (Num 9)), (0, Set (Str ''b'') (Num 7)),
                (0, Delete (Str ''a'')), (0, Set (Str ''a'') (Num 5))]
          else []),
         e)))
     Undefined \<lparr>stores = [[(Str ''a'', Num 1), (Str ''b'', Num 2)]], env = ()\<rparr>
   = Some (Inr [Arr [Str ''a'', Num 1], Arr [Str ''b'', Num 7], Arr [Str ''z'', Num 9],
                Arr [Str ''a'', Num 5]],
           \<lparr>stores = [[(Str ''b'', Num 7), (Str ''z'', Num 9), (Str ''a'', Num 5)]], env = ()\<rparr>)"
  by (simp add: map_store_def call_def js_nth_def Store_set_def Store_delete_def
      map_loop_Nil map_loop_Cons iterator_after_call_def)

end
